theory Spec2Isabelle
  imports Main "HOL-Library.Sublist" "HOL-Library.Monad_Syntax"
begin

section \<open>JavaScript strings\<close>

text \<open>
  A JavaScript string is a sequence of UTF-16 code units. Lengths, indices and slices of
  \<^verbatim>\<open>index.mjs\<close> count code units, so a string is modelled as the list of its code units,
  each an integer (0 to 65535 for a real string; the definitions are total on every
  integer). ASCII literals are written with \<open>str\<close>.
\<close>

type_synonym jschar = int
type_synonym jsstring = "jschar list"

definition str :: "string \<Rightarrow> jsstring" where
  "str s = map of_char s"

text \<open>The characters the source names outside ASCII.\<close>

definition NUL :: jschar where "NUL = 0"
definition NL :: jschar where "NL = 10"
definition CR :: jschar where "CR = 13"
definition SP :: jschar where "SP = 32"
definition PIPE :: jschar where "PIPE = 124"
definition MIDDOT :: jschar where "MIDDOT = 183"
definition EMDASH :: jschar where "EMDASH = 8212"
definition BULLET :: jschar where "BULLET = 8226"

text \<open>
  ECMAScript character classes. \<open>isLineTerminator\<close>: LF, CR, LS, PS.
  \<open>isSpace\<close> is the class \<^verbatim>\<open>\s\<close>, which is also what \<^verbatim>\<open>trim\<close> strips: WhiteSpace
  (TAB, VT, FF, SP, NBSP, ZWNBSP and the category Zs) and LineTerminator.
  \<open>isWord\<close> is \<^verbatim>\<open>\w\<close>, \<open>isDigit\<close> is \<^verbatim>\<open>\d\<close>.
\<close>

definition isLineTerminator :: "jschar \<Rightarrow> bool" where
  "isLineTerminator c = (c = 10 \<or> c = 13 \<or> c = 8232 \<or> c = 8233)"

definition isSpace :: "jschar \<Rightarrow> bool" where
  "isSpace c = (c = 9 \<or> c = 10 \<or> c = 11 \<or> c = 12 \<or> c = 13 \<or> c = 32 \<or> c = 160
     \<or> c = 5760 \<or> (8192 \<le> c \<and> c \<le> 8202) \<or> c = 8232 \<or> c = 8233 \<or> c = 8239
     \<or> c = 8287 \<or> c = 12288 \<or> c = 65279)"

definition isDigit :: "jschar \<Rightarrow> bool" where
  "isDigit c = (48 \<le> c \<and> c \<le> 57)"

definition isWord :: "jschar \<Rightarrow> bool" where
  "isWord c = ((97 \<le> c \<and> c \<le> 122) \<or> (65 \<le> c \<and> c \<le> 90) \<or> isDigit c \<or> c = 95)"

definition isHex :: "jschar \<Rightarrow> bool" where
  "isHex c = (isDigit c \<or> (97 \<le> c \<and> c \<le> 102) \<or> (65 \<le> c \<and> c \<le> 70))"

text \<open>\<^verbatim>\<open>String.prototype.trimStart\<close>, \<^verbatim>\<open>trimEnd\<close>, \<^verbatim>\<open>trim\<close>.\<close>

definition trimStart :: "jsstring \<Rightarrow> jsstring" where
  "trimStart s = dropWhile isSpace s"

definition trimEnd :: "jsstring \<Rightarrow> jsstring" where
  "trimEnd s = rev (dropWhile isSpace (rev s))"

definition trim :: "jsstring \<Rightarrow> jsstring" where
  "trim s = trimEnd (trimStart s)"

text \<open>
  \<^verbatim>\<open>s.slice(a, b)\<close> for non-negative integer arguments: the code units from index
  \<open>a\<close> (clamped to the length) up to, not including, index \<open>b\<close> (clamped); empty
  when \<open>b \<le> a\<close>.
\<close>

definition slice :: "jsstring \<Rightarrow> nat \<Rightarrow> nat \<Rightarrow> jsstring" where
  "slice s a b = take (b - a) (drop a s)"

text \<open>\<^verbatim>\<open>s.startsWith(p)\<close>.\<close>

fun startsWith :: "jsstring \<Rightarrow> jsstring \<Rightarrow> bool" where
  "startsWith s [] = True"
| "startsWith [] (p # ps) = False"
| "startsWith (c # cs) (p # ps) = (c = p \<and> startsWith cs ps)"

text \<open>\<^verbatim>\<open>s.includes(p)\<close>.\<close>

fun includes_str :: "jsstring \<Rightarrow> jsstring \<Rightarrow> bool" where
  "includes_str [] p = (p = [])"
| "includes_str (c # cs) p = (startsWith (c # cs) p \<or> includes_str cs p)"

text \<open>
  \<^verbatim>\<open>s.lastIndexOf(p)\<close>: the greatest index at which \<open>p\<close> occurs, or \<open>-1\<close>.
  \<open>lastIndexFrom i s p\<close> scans \<open>s\<close>, whose first code unit has index \<open>i\<close>.
\<close>

fun lastIndexFrom :: "nat \<Rightarrow> jsstring \<Rightarrow> jsstring \<Rightarrow> int" where
  "lastIndexFrom i [] p = (if p = [] then int i else -1)"
| "lastIndexFrom i (c # cs) p =
     (let later = lastIndexFrom (Suc i) cs p
      in if later \<noteq> -1 then later else if startsWith (c # cs) p then int i else -1)"

definition lastIndexOf :: "jsstring \<Rightarrow> jsstring \<Rightarrow> int" where
  "lastIndexOf s p = lastIndexFrom 0 s p"

text \<open>
  \<^verbatim>\<open>s.split(sep)\<close> for a non-empty separator string: the pieces between the successive
  (leftmost, non-overlapping) occurrences of \<open>sep\<close>; never the empty list.
  \<open>split_from sep cur s\<close> carries the piece collected so far, reversed.
\<close>

fun split_from :: "jsstring \<Rightarrow> jsstring \<Rightarrow> jsstring \<Rightarrow> jsstring list" where
  "split_from sep cur [] = [rev cur]"
| "split_from sep cur (c # cs) =
     (if startsWith (c # cs) sep
      then rev cur # split_from sep [] (drop (length sep - 1) cs)
      else split_from sep (c # cur) cs)"

definition split_str :: "jsstring \<Rightarrow> jsstring \<Rightarrow> jsstring list" where
  "split_str s sep = split_from sep [] s"

text \<open>\<^verbatim>\<open>xs.join(sep)\<close>.\<close>

fun join :: "jsstring list \<Rightarrow> jsstring \<Rightarrow> jsstring" where
  "join [] sep = []"
| "join [x] sep = x"
| "join (x # y # ys) sep = x @ sep @ join (y # ys) sep"

text \<open>
  \<^verbatim>\<open>s.replace(pat, rep)\<close> with a string pattern: the first occurrence of \<open>pat\<close> is
  replaced. (The replacement strings of the source contain no \<^verbatim>\<open>$\<close>, so no
  substitution pattern is expanded.)
\<close>

fun replaceFirst :: "jsstring \<Rightarrow> jsstring \<Rightarrow> jsstring \<Rightarrow> jsstring" where
  "replaceFirst [] pat rep = (if pat = [] then rep else [])"
| "replaceFirst (c # cs) pat rep =
     (if startsWith (c # cs) pat then rep @ drop (length pat) (c # cs)
      else c # replaceFirst cs pat rep)"

text \<open>The template literal \<^verbatim>\<open>${i}\<close> of a non-negative integer: its decimal digits.\<close>

fun decimal :: "nat \<Rightarrow> jsstring" where
  "decimal n = (if n < 10 then [48 + int n] else decimal (n div 10) @ [48 + int (n mod 10)])"

declare decimal.simps [simp del]

section \<open>Regular expressions\<close>

text \<open>
  The regular expressions of the source are written as terms of \<open>regex\<close> and run by a
  backtracking matcher that follows the ECMAScript semantics: alternatives in order,
  greedy and lazy quantifiers, capture groups and back-references, and the assertions
  \<^verbatim>\<open>^\<close> and \<^verbatim>\<open>$\<close> with or without the \<^verbatim>\<open>m\<close> flag.

  \<^item> \<open>Lit s\<close>: the literal characters \<open>s\<close>;
  \<^item> \<open>Class P\<close>: one character of the class \<open>P\<close>;
  \<^item> \<open>Seq a b\<close>, \<open>Alt a b\<close>: \<^verbatim>\<open>ab\<close>, \<^verbatim>\<open>a|b\<close>;
  \<^item> \<open>Rep greedy mn mx r\<close>: \<^verbatim>\<open>r{mn,mx}\<close> (\<open>mx = None\<close>: unbounded), lazy when
    \<open>greedy\<close> is false;
  \<^item> \<open>Group n r\<close>: capture group number \<open>n\<close>; \<open>Backref n\<close>: \<^verbatim>\<open>\n\<close>;
  \<^item> \<open>Bol\<close>, \<open>Eol\<close>: \<^verbatim>\<open>^\<close>, \<^verbatim>\<open>$\<close>;
  \<^item> \<open>NotAfter P\<close>: the lookbehind \<^verbatim>\<open>(?<!c)\<close> for a class \<open>c\<close>;
    \<open>NotBefore P\<close>: the lookahead \<^verbatim>\<open>(?!c)\<close>.
\<close>

datatype regex =
    Lit jsstring
  | Class "jschar \<Rightarrow> bool"
  | Seq regex regex
  | Alt regex regex
  | Rep bool nat "nat option" regex
  | Group nat regex
  | Backref nat
  | Bol
  | Eol
  | NotAfter "jschar \<Rightarrow> bool"
  | NotBefore "jschar \<Rightarrow> bool"

text \<open>
  A matcher state: the character before the current position (\<open>None\<close> at the start of
  the input), the input from the current position on, and the captures so far.
\<close>

record mstate =
  prev :: "jschar option"
  rest :: jsstring
  caps :: "(nat \<times> jsstring) list"

definition consume :: "nat \<Rightarrow> mstate \<Rightarrow> mstate" where
  "consume n st =
     (if n = 0 then st
      else st\<lparr>prev := Some (rest st ! (n - 1)), rest := drop n (rest st)\<rparr>)"

fun group_ids :: "regex \<Rightarrow> nat list" where
  "group_ids (Seq a b) = group_ids a @ group_ids b"
| "group_ids (Alt a b) = group_ids a @ group_ids b"
| "group_ids (Rep g mn mx r) = group_ids r"
| "group_ids (Group n r) = n # group_ids r"
| "group_ids r = []"

definition clear_caps :: "nat list \<Rightarrow> mstate \<Rightarrow> mstate" where
  "clear_caps ns st = st\<lparr>caps := filter (\<lambda>(k, v). k \<notin> set ns) (caps st)\<rparr>"

fun dec_max :: "nat option \<Rightarrow> nat option" where
  "dec_max None = None"
| "dec_max (Some k) = Some (k - 1)"

text \<open>
  The quantifier, as RepeatMatcher of the ECMAScript specification: \<open>f\<close> runs one
  iteration of the body and returns its results in priority order. With \<open>mn = 0\<close> an
  iteration that consumes nothing is rejected. (The test \<open>\<le>\<close> in the other case is
  always true, since a matcher only moves forward, see \<open>rep_guard_always\<close> below; it
  is there for the termination of the definition.)
\<close>

function rep_iter ::
  "(mstate \<Rightarrow> mstate list) \<Rightarrow> bool \<Rightarrow> nat \<Rightarrow> nat option \<Rightarrow> mstate \<Rightarrow> mstate list" where
  "rep_iter f greedy mn mx st =
     (if mx = Some 0 then [st]
      else
        let more = concat (map (\<lambda>st'. rep_iter f greedy (mn - 1) (dec_max mx) st')
                     (filter (\<lambda>st'. if mn = 0 then length (rest st') < length (rest st)
                                     else length (rest st') \<le> length (rest st))
                        (f st)))
        in if mn > 0 then more else if greedy then more @ [st] else st # more)"
  by pat_completeness auto
termination
  by (relation "measure (\<lambda>(f, greedy, mn, mx, st). length (rest st) + mn)")
     (auto split: if_splits)

declare rep_iter.simps [simp del]

text \<open>
  \<open>ms multiline r st\<close>: all the ways \<open>r\<close> matches at \<open>st\<close>, as the states after the
  match, in the order in which a backtracking matcher tries them. The match the engine
  reports is the first one that lets the rest of the pattern succeed.
\<close>

primrec ms :: "bool \<Rightarrow> regex \<Rightarrow> mstate \<Rightarrow> mstate list" where
  "ms m (Lit s) st = (if startsWith (rest st) s then [consume (length s) st] else [])"
| "ms m (Class P) st =
     (case rest st of [] \<Rightarrow> [] | c # cs \<Rightarrow> if P c then [consume 1 st] else [])"
| "ms m (Seq a b) st = concat (map (ms m b) (ms m a st))"
| "ms m (Alt a b) st = ms m a st @ ms m b st"
| "ms m (Rep greedy mn mx r) st =
     rep_iter (\<lambda>s. ms m r (clear_caps (group_ids r) s)) greedy mn mx st"
| "ms m (Group n r) st =
     map (\<lambda>st'. st'\<lparr>caps := (n, take (length (rest st) - length (rest st')) (rest st)) # caps st'\<rparr>)
       (ms m r st)"
| "ms m (Backref n) st =
     (case map_of (caps st) n of
        None \<Rightarrow> [st]
      | Some s \<Rightarrow> if startsWith (rest st) s then [consume (length s) st] else [])"
| "ms m Bol st =
     (case prev st of
        None \<Rightarrow> [st]
      | Some c \<Rightarrow> if m \<and> isLineTerminator c then [st] else [])"
| "ms m Eol st =
     (case rest st of
        [] \<Rightarrow> [st]
      | c # cs \<Rightarrow> if m \<and> isLineTerminator c then [st] else [])"
| "ms m (NotAfter P) st =
     (case prev st of None \<Rightarrow> [st] | Some c \<Rightarrow> if P c then [] else [st])"
| "ms m (NotBefore P) st =
     (case rest st of [] \<Rightarrow> [st] | c # cs \<Rightarrow> if P c then [] else [st])"

text \<open>Sequences and the usual quantifiers.\<close>

fun seqs :: "regex list \<Rightarrow> regex" where
  "seqs [] = Lit []"
| "seqs [r] = r"
| "seqs (r # rs) = Seq r (seqs rs)"

definition star_re :: "regex \<Rightarrow> regex" where "star_re r = Rep True 0 None r"
definition plus_re :: "regex \<Rightarrow> regex" where "plus_re r = Rep True 1 None r"
definition lazy_star_re :: "regex \<Rightarrow> regex" where "lazy_star_re r = Rep False 0 None r"

text \<open>
  A match: the text skipped before it, the matched text, the captures, and the
  position after it (previous character and remaining input).
\<close>

record rmatch =
  skipped :: jsstring
  matched :: jsstring
  groups :: "(nat \<times> jsstring) list"
  after_prev :: "jschar option"
  after :: jsstring

text \<open>
  \<open>match_at\<close>: the match of \<open>r\<close> that starts exactly at the given position, if any.
  \<open>re_exec\<close>: the leftmost match at or after the position, as \<^verbatim>\<open>RegExp.prototype.exec\<close>
  finds it from \<^verbatim>\<open>lastIndex\<close>.
\<close>

definition match_at :: "bool \<Rightarrow> regex \<Rightarrow> jschar option \<Rightarrow> jsstring \<Rightarrow> rmatch option" where
  "match_at m r p s =
     (case ms m r \<lparr>prev = p, rest = s, caps = []\<rparr> of
        [] \<Rightarrow> None
      | st' # _ \<Rightarrow>
          Some \<lparr>skipped = [], matched = take (length s - length (rest st')) s,
                groups = caps st', after_prev = prev st', after = rest st'\<rparr>)"

fun re_exec :: "bool \<Rightarrow> regex \<Rightarrow> jschar option \<Rightarrow> jsstring \<Rightarrow> rmatch option" where
  "re_exec m r p [] = match_at m r p []"
| "re_exec m r p (c # cs) =
     (case match_at m r p (c # cs) of
        Some mt \<Rightarrow> Some mt
      | None \<Rightarrow> map_option (\<lambda>mt. mt\<lparr>skipped := c # skipped mt\<rparr>) (re_exec m r (Some c) cs))"

text \<open>\<^verbatim>\<open>re.test(s)\<close> for a regular expression without the \<^verbatim>\<open>g\<close> flag.\<close>

definition re_test :: "bool \<Rightarrow> regex \<Rightarrow> jsstring \<Rightarrow> bool" where
  "re_test m r s = (re_exec m r None s \<noteq> None)"

text \<open>\<^verbatim>\<open>m[k]\<close>, with \<^verbatim>\<open>undefined\<close> as \<open>None\<close>.\<close>

definition group :: "rmatch \<Rightarrow> nat \<Rightarrow> jsstring option" where
  "group mt k = map_of (groups mt) k"


text \<open>A matcher only moves forward: every result is at a suffix of the input.\<close>

lemma consume_rest: "rest (consume n st) = drop n (rest st)"
  by (simp add: consume_def)

lemma rep_iter_suffix:
  "(\<And>s s'. s' \<in> set (f s) \<Longrightarrow> suffix (rest s') (rest s)) \<Longrightarrow>
   st' \<in> set (rep_iter f greedy mn mx st) \<Longrightarrow> suffix (rest st') (rest st)"
proof (induction f greedy mn mx st arbitrary: st' rule: rep_iter.induct)
  case (1 f greedy mn mx st)
  show ?case
  proof (cases "mx = Some 0")
    case True
    with "1.prems"(2) show ?thesis by (simp add: rep_iter.simps)
  next
    case False
    from "1.prems"(2) False consider "st' = st"
      | s where "s \<in> set (f st)" "st' \<in> set (rep_iter f greedy (mn - 1) (dec_max mx) s)"
        "if mn = 0 then length (rest s) < length (rest st) else length (rest s) \<le> length (rest st)"
      by (subst (asm) rep_iter.simps) (auto simp: Let_def split: if_splits)
    then show ?thesis
    proof cases
      case 1
      then show ?thesis by simp
    next
      case 2
      have "suffix (rest st') (rest s)"
        using "1.IH"[OF False _ "1.prems"(1) 2(2)] 2(1,3) by simp
      moreover from "1.prems"(1) 2(1) have "suffix (rest s) (rest st)" by blast
      ultimately show ?thesis by (rule suffix_order.trans)
    qed
  qed
qed

lemma ms_suffix: "st' \<in> set (ms m r st) \<Longrightarrow> suffix (rest st') (rest st)"
proof (induction r arbitrary: st st')
  case (Lit s)
  then show ?case by (auto simp: consume_rest suffix_drop split: if_splits)
next
  case (Class P)
  then show ?case by (auto simp: consume_rest suffix_drop split: if_splits list.splits)
next
  case (Seq a b)
  from Seq.prems obtain s where "s \<in> set (ms m a st)" "st' \<in> set (ms m b s)" by auto
  with Seq.IH show ?case by (blast intro: suffix_order.trans)
next
  case (Alt a b)
  then show ?case by auto
next
  case (Rep g mn mx r)
  have "\<And>s s'. s' \<in> set (ms m r (clear_caps (group_ids r) s)) \<Longrightarrow> suffix (rest s') (rest s)"
    using Rep.IH by (fastforce simp: clear_caps_def)
  from rep_iter_suffix[where f = "\<lambda>s. ms m r (clear_caps (group_ids r) s)", OF this] Rep.prems
  show ?case by simp
next
  case (Group n r)
  then show ?case by auto
next
  case (Backref n)
  then show ?case by (auto simp: consume_rest suffix_drop split: if_splits option.splits)
next
  case Bol
  then show ?case by (auto split: if_splits option.splits)
next
  case Eol
  then show ?case by (auto split: if_splits list.splits)
next
  case (NotAfter P)
  then show ?case by (auto split: if_splits option.splits)
next
  case (NotBefore P)
  then show ?case by (auto split: if_splits list.splits)
qed

lemma rep_guard_always:
  "filter (\<lambda>st'. length (rest st') \<le> length (rest st)) (ms m r (clear_caps ns st)) =
   ms m r (clear_caps ns st)"
proof (rule filter_True, rule ballI)
  fix st' assume "st' \<in> set (ms m r (clear_caps ns st))"
  from ms_suffix[OF this] show "length (rest st') \<le> length (rest st)"
    by (simp add: clear_caps_def suffix_length_le)
qed

lemma match_at_parts:
  "match_at m r p s = Some mt \<Longrightarrow> skipped mt = [] \<and> s = matched mt @ after mt"
proof -
  assume a: "match_at m r p s = Some mt"
  then obtain st' sts where ms: "ms m r \<lparr>prev = p, rest = s, caps = []\<rparr> = st' # sts"
    by (auto simp: match_at_def split: list.splits)
  then have "suffix (rest st') s"
    using ms_suffix[of st' m r "\<lparr>prev = p, rest = s, caps = []\<rparr>"] by simp
  then obtain u where u: "s = u @ rest st'" by (auto simp: suffix_def)
  with a ms show ?thesis by (auto simp: match_at_def)
qed

lemma match_at_after_less:
  "match_at m r p s = Some mt \<Longrightarrow> matched mt \<noteq> [] \<Longrightarrow> length (after mt) < length s"
  by (drule match_at_parts) (cases "matched mt"; simp)

lemma re_exec_parts:
  "re_exec m r p s = Some mt \<Longrightarrow> s = skipped mt @ matched mt @ after mt"
proof (induction s arbitrary: p mt)
  case Nil
  then show ?case using match_at_parts[of m r p "[]" mt] by simp
next
  case (Cons c cs)
  show ?case
  proof (cases "match_at m r p (c # cs)")
    case (Some mt')
    with Cons.prems have "mt' = mt" by simp
    with Some match_at_parts[of m r p "c # cs" mt] show ?thesis by simp
  next
    case None
    with Cons.prems obtain mt' where
      mt': "re_exec m r (Some c) cs = Some mt'" "mt = mt'\<lparr>skipped := c # skipped mt'\<rparr>"
      by auto
    from Cons.IH[OF mt'(1)] mt'(2) show ?thesis by simp
  qed
qed

lemma re_exec_after_le: "re_exec m r p s = Some mt \<Longrightarrow> length (after mt) \<le> length s"
  by (drule re_exec_parts) (metis length_append le_add2 trans_le_add2)

lemma re_exec_after_less:
  "re_exec m r p s = Some mt \<Longrightarrow> matched mt \<noteq> [] \<Longrightarrow> length (after mt) < length s"
  by (drule re_exec_parts) (cases "matched mt"; simp)

text \<open>
  The loop \<^verbatim>\<open>while ((m = re.exec(text)) !== null)\<close> over a regular expression with the
  \<^verbatim>\<open>g\<close> flag: each call starts where the last match ended. After an empty match
  \<^verbatim>\<open>lastIndex\<close> stays where it is, and the loop finds the same match for ever: the
  result is then \<open>None\<close>.
\<close>

function exec_all :: "bool \<Rightarrow> regex \<Rightarrow> jschar option \<Rightarrow> jsstring \<Rightarrow> rmatch list option" where
  "exec_all m r p s =
     (case re_exec m r p s of
        None \<Rightarrow> Some []
      | Some mt \<Rightarrow>
          if matched mt = [] then None
          else map_option ((#) mt) (exec_all m r (after_prev mt) (after mt)))"
  by pat_completeness auto
termination
  by (relation "measure (\<lambda>(m, r, p, s). length s)") (auto dest: re_exec_after_less)

declare exec_all.simps [simp del]

text \<open>
  A replacement string, split at its substitution patterns: literal text and
  \<^verbatim>\<open>$n\<close> (the text of capture group \<open>n\<close>, empty when the group took no part).
\<close>

datatype rpiece = RText jsstring | RGroup nat

fun expand :: "rpiece list \<Rightarrow> rmatch \<Rightarrow> jsstring" where
  "expand [] mt = []"
| "expand (RText t # ps) mt = t @ expand ps mt"
| "expand (RGroup n # ps) mt = (case group mt n of None \<Rightarrow> [] | Some g \<Rightarrow> g) @ expand ps mt"

text \<open>
  \<^verbatim>\<open>s.replace(re, rep)\<close>. Without the \<^verbatim>\<open>g\<close> flag the leftmost match is replaced.
  With it every match is, each search starting where the last match ended, and one
  character further after an empty match.
\<close>

definition re_replace :: "bool \<Rightarrow> regex \<Rightarrow> rpiece list \<Rightarrow> jsstring \<Rightarrow> jsstring" where
  "re_replace m r rep s =
     (case re_exec m r None s of
        None \<Rightarrow> s
      | Some mt \<Rightarrow> skipped mt @ expand rep mt @ after mt)"

function re_replace_from ::
  "bool \<Rightarrow> regex \<Rightarrow> rpiece list \<Rightarrow> jschar option \<Rightarrow> jsstring \<Rightarrow> jsstring" where
  "re_replace_from m r rep p s =
     (case re_exec m r p s of
        None \<Rightarrow> s
      | Some mt \<Rightarrow>
          skipped mt @ expand rep mt @
          (if matched mt = []
           then (case after mt of
                   [] \<Rightarrow> []
                 | c # cs \<Rightarrow> c # re_replace_from m r rep (Some c) cs)
           else re_replace_from m r rep (after_prev mt) (after mt)))"
  by pat_completeness auto
termination
  by (relation "measure (\<lambda>(m, r, rep, p, s). length s)")
     (auto dest: re_exec_after_less re_exec_after_le)

declare re_replace_from.simps [simp del]

definition re_replace_all :: "bool \<Rightarrow> regex \<Rightarrow> rpiece list \<Rightarrow> jsstring \<Rightarrow> jsstring" where
  "re_replace_all m r rep s = re_replace_from m r rep None s"

text \<open>
  \<^verbatim>\<open>s.split(re)\<close> for a regular expression without capture groups: at each position
  \<open>q\<close> in turn the pattern is tried at \<open>q\<close> exactly; a match that ends at the start of
  the current piece is passed over. The empty input gives \<^verbatim>\<open>[""]\<close>, or \<^verbatim>\<open>[]\<close> when
  the pattern matches the empty string. \<open>re_split_from\<close> carries the current piece,
  reversed.
\<close>

function re_split_from ::
  "bool \<Rightarrow> regex \<Rightarrow> jsstring \<Rightarrow> jschar option \<Rightarrow> jsstring \<Rightarrow> jsstring list" where
  "re_split_from m r cur p [] = [rev cur]"
| "re_split_from m r cur p (c # cs) =
     (case match_at m r p (c # cs) of
        None \<Rightarrow> re_split_from m r (c # cur) (Some c) cs
      | Some mt \<Rightarrow>
          if matched mt = [] \<and> cur = [] then re_split_from m r (c # cur) (Some c) cs
          else if matched mt = [] then rev cur # re_split_from m r [c] (Some c) cs
          else rev cur # re_split_from m r [] (after_prev mt) (after mt))"
  by pat_completeness auto
termination
  by (relation "measure (\<lambda>(m, r, cur, p, s). length s)")
     (auto dest: match_at_after_less)

definition re_split :: "bool \<Rightarrow> regex \<Rightarrow> jsstring \<Rightarrow> jsstring list" where
  "re_split m r s =
     (if s = [] then (if match_at m r None [] = None then [[]] else [])
      else re_split_from m r [] None s)"


section \<open>The preprocessor (index.mjs)\<close>

definition TELEGRAM_MAX_LENGTH :: nat where
  "TELEGRAM_MAX_LENGTH = 4096"

definition FENCE_PLACEHOLDER_PREFIX :: jsstring where
  "FENCE_PLACEHOLDER_PREFIX = NUL # str ''FENCE''"

definition FENCE_PLACEHOLDER_SUFFIX :: jsstring where
  "FENCE_PLACEHOLDER_SUFFIX = [NUL]"

text \<open>The template \<^verbatim>\<open>`${FENCE_PLACEHOLDER_PREFIX}${i}${FENCE_PLACEHOLDER_SUFFIX}`\<close>.\<close>

definition placeholder :: "nat \<Rightarrow> jsstring" where
  "placeholder i = FENCE_PLACEHOLDER_PREFIX @ decimal i @ FENCE_PLACEHOLDER_SUFFIX"

definition escapeHtml :: "jsstring \<Rightarrow> jsstring" where
  "escapeHtml text =
     re_replace_all False (Lit (str ''>'')) [RText (str ''&gt;'')]
       (re_replace_all False (Lit (str ''<'')) [RText (str ''&lt;'')]
         (re_replace_all False (Lit (str ''&'')) [RText (str ''&amp;'')] text))"

definition isFenceLine :: "jsstring \<Rightarrow> bool" where
  "isFenceLine line =
     (let trimmed = trim line
      in (trimmed = str ''```'' \<or> trimmed = str ''~~~'') \<and> length trimmed \<ge> 3)"

subsection \<open>Fenced blocks\<close>

text \<open>\<^verbatim>\<open>/(```|~~~)(\w*)\n([\s\S]*?)\1\s*$/gm\<close>\<close>

definition fence_re :: regex where
  "fence_re = seqs
     [Group 1 (Alt (Lit (str ''```'')) (Lit (str ''~~~''))),
      Group 2 (star_re (Class isWord)),
      Lit [NL],
      Group 3 (lazy_star_re (Class (\<lambda>c. True))),
      Backref 1,
      star_re (Class isSpace),
      Eol]"

record FenceBlock =
  lang :: jsstring
  body :: jsstring
  fenceType :: jsstring

text \<open>
  \<^verbatim>\<open>{ lang: match[2] || "", body: match[3], fenceType: match[1] }\<close>; the three groups
  take part in every match of \<open>fence_re\<close>.
\<close>

definition group_or_empty :: "rmatch \<Rightarrow> nat \<Rightarrow> jsstring" where
  "group_or_empty mt k = (case group mt k of None \<Rightarrow> [] | Some g \<Rightarrow> g)"

definition block_of :: "rmatch \<Rightarrow> FenceBlock" where
  "block_of mt =
     \<lparr>lang = group_or_empty mt 2, body = group_or_empty mt 3, fenceType = group_or_empty mt 1\<rparr>"

text \<open>The second loop of \<open>extractFencedBlocks\<close>, from index \<open>i\<close> on.\<close>

fun replace_matches :: "nat \<Rightarrow> rmatch list \<Rightarrow> jsstring \<Rightarrow> jsstring" where
  "replace_matches i [] out = out"
| "replace_matches i (mt # mts) out =
     replace_matches (Suc i) mts (replaceFirst out (matched mt) (placeholder i))"

definition extractFencedBlocks :: "jsstring \<Rightarrow> (jsstring \<times> FenceBlock list) option" where
  "extractFencedBlocks text =
     do {
       matches \<leftarrow> exec_all True fence_re None text;
       Some (replace_matches 0 matches text, map block_of matches)
     }"

text \<open>The loop of \<open>restoreFencedBlocks\<close>, from index \<open>i\<close> on.\<close>

fun restore_from :: "nat \<Rightarrow> FenceBlock list \<Rightarrow> bool \<Rightarrow> jsstring \<Rightarrow> jsstring" where
  "restore_from i [] asHtml out = out"
| "restore_from i (b # bs) asHtml out =
     (let escaped = (if asHtml then escapeHtml (body b) else body b);
          lang' = (if lang b \<noteq> [] then SP # lang b else []);
          replacement =
            (if asHtml
             then str ''<pre><code'' @ lang' @ str ''>'' @ escaped @ str ''</code></pre>''
             else fenceType b @ lang' @ [NL] @ body b @ [NL] @ fenceType b @ [NL])
      in restore_from (Suc i) bs asHtml (join (split_str out (placeholder i)) replacement))"

definition restoreFencedBlocks :: "jsstring \<Rightarrow> FenceBlock list \<Rightarrow> bool \<Rightarrow> jsstring" where
  "restoreFencedBlocks text blocks asHtml = restore_from 0 blocks asHtml text"

subsection \<open>Tables\<close>

text \<open>\<^verbatim>\<open>/^(\|[\s\-:]+)+\|\s*$/\<close>\<close>

definition isSepChar :: "jschar \<Rightarrow> bool" where
  "isSepChar c = (isSpace c \<or> c = 45 \<or> c = 58)"

definition TABLE_SEPARATOR_RE :: regex where
  "TABLE_SEPARATOR_RE = seqs
     [Bol,
      plus_re (Group 1 (Seq (Lit [PIPE]) (plus_re (Class isSepChar)))),
      Lit [PIPE],
      star_re (Class isSpace),
      Eol]"

definition parseRow :: "jsstring \<Rightarrow> jsstring list" where
  "parseRow line =
     (let trimmed = re_replace False (Seq (Lit [PIPE]) Eol) []
                      (re_replace False (Seq Bol (Lit [PIPE])) [] (trim line))
      in map trim (split_str trimmed [PIPE]))"

text \<open>\<^verbatim>\<open>xs.findIndex((x, i) => P(x, i))\<close>: the first index that satisfies \<open>P\<close>, or \<open>-1\<close>.\<close>

fun findIndex_from :: "nat \<Rightarrow> ('a \<Rightarrow> nat \<Rightarrow> bool) \<Rightarrow> 'a list \<Rightarrow> int" where
  "findIndex_from i P [] = -1"
| "findIndex_from i P (x # xs) = (if P x i then int i else findIndex_from (Suc i) P xs)"

definition findIndex :: "('a \<Rightarrow> nat \<Rightarrow> bool) \<Rightarrow> 'a list \<Rightarrow> int" where
  "findIndex P xs = findIndex_from 0 P xs"

text \<open>One bullet line of \<open>tableToBullets\<close>: the body of its \<^verbatim>\<open>for\<close> loop.\<close>

definition bullet_row :: "jsstring list \<Rightarrow> jsstring \<Rightarrow> jsstring" where
  "bullet_row headers row =
     (let cells = parseRow row;
          display = map (\<lambda>c. if c = [] then [EMDASH] else c) cells
      in if length headers = length display
         then [BULLET, SP] @
              join (map (\<lambda>(h, d). h @ str '': '' @ d) (zip headers display)) [SP, MIDDOT, SP]
         else [BULLET, SP] @ join display [SP, MIDDOT, SP])"

definition tableToBullets :: "jsstring \<Rightarrow> jsstring" where
  "tableToBullets block =
     (let lines = map trim (split_str block [NL])
      in if length lines < 3 then block
         else
           let first = lines ! 0
           in if \<not> includes_str first [PIPE] then block
              else
                let sepIdx = findIndex (\<lambda>l i. i > 0 \<and> re_test False TABLE_SEPARATOR_RE l) lines
                in if sepIdx < 1 then block
                   else
                     let dataLines = filter (\<lambda>l. includes_str l [PIPE])
                                       (drop (nat (sepIdx + 1)) lines)
                     in if dataLines = [] then block
                        else join (map (bullet_row (parseRow first)) dataLines) [NL])"

definition processBlock :: "jsstring \<Rightarrow> jsstring" where
  "processBlock block =
     (let trimmed = trim block
      in if trimmed = [] then []
         else
           let lines = split_str trimmed [NL]
           in if length lines < 3 then trimmed
              else
                let first = lines ! 0
                in if \<not> includes_str first [PIPE] then trimmed
                   else
                     let sepIdx = findIndex (\<lambda>l i. i > 0 \<and> re_test False TABLE_SEPARATOR_RE l) lines
                     in if sepIdx \<noteq> 1 then trimmed
                        else
                          let dataLines = filter (\<lambda>l. includes_str l [PIPE]) (drop 2 lines)
                          in if dataLines = [] then trimmed
                             else tableToBullets trimmed)"

subsection \<open>Whitespace\<close>

definition normalizeWhitespace :: "jsstring \<Rightarrow> jsstring" where
  "normalizeWhitespace text =
     trim
       (join
         (map trimEnd
           (split_str
             (re_replace_all False (Rep True 3 None (Lit [NL])) [RText [NL, NL]]
               (re_replace_all False (Lit [CR]) [RText [NL]]
                 (re_replace_all False (Lit [CR, NL]) [RText [NL]] text)))
             [NL]))
         [NL])"

text \<open>\<^verbatim>\<open>/\n\s*\n/\<close>\<close>

definition paragraph_re :: regex where
  "paragraph_re = seqs [Lit [NL], star_re (Class isSpace), Lit [NL]]"

definition convertTablesToBullets :: "jsstring \<Rightarrow> jsstring" where
  "convertTablesToBullets text =
     (let normalized = normalizeWhitespace text;
          blocks = re_split False paragraph_re normalized;
          processed = filter (\<lambda>b. b \<noteq> []) (map processBlock blocks)
      in join processed [NL, NL])"

subsection \<open>Chunks\<close>

text \<open>
  \<^verbatim>\<open>/&(?:#\d+|#x[\da-fA-F]+|\w+);/g\<close>, \<^verbatim>\<open>/<[^>]+>/g\<close> and
  \<^verbatim>\<open>/<pre[\s>][\s\S]*?<\/pre>/g\<close>
\<close>

definition entityRe :: regex where
  "entityRe = seqs
     [Lit (str ''&''),
      Alt (Seq (Lit (str ''#'')) (plus_re (Class isDigit)))
        (Alt (Seq (Lit (str ''#x'')) (plus_re (Class isHex)))
          (plus_re (Class isWord))),
      Lit (str '';'')]"

definition tagRe :: regex where
  "tagRe = seqs [Lit (str ''<''), plus_re (Class (\<lambda>c. c \<noteq> 62)), Lit (str ''>'')]"

definition preRe :: regex where
  "preRe = seqs
     [Lit (str ''<pre''),
      Class (\<lambda>c. isSpace c \<or> c = 62),
      lazy_star_re (Class (\<lambda>c. True)),
      Lit (str ''</pre>'')]"

text \<open>
  \<open>match_ends pos ms\<close>: for the successive matches of one \<open>exec\<close> loop, the values
  \<^verbatim>\<open>m.index + m[0].length\<close>; \<open>pos\<close> is where the previous match ended.
\<close>

fun match_ends :: "nat \<Rightarrow> rmatch list \<Rightarrow> nat list" where
  "match_ends pos [] = []"
| "match_ends pos (mt # mts) =
     (let e = pos + length (skipped mt) + length (matched mt) in e # match_ends e mts)"

text \<open>
  One of the three \<^verbatim>\<open>while\<close> loops of \<open>nextSafeBreak\<close>:
  \<^verbatim>\<open>const end = start + m.index + m[0].length;
  if (end > start + maxLen && end < best) best = end;\<close>
\<close>

definition scan_best :: "regex \<Rightarrow> jsstring \<Rightarrow> nat \<Rightarrow> nat \<Rightarrow> nat \<Rightarrow> nat option" where
  "scan_best re segment start maxLen best =
     do {
       matches \<leftarrow> exec_all False re None segment;
       Some (fold (\<lambda>e best. let end = start + e
                             in if end > start + maxLen \<and> end < best then end else best)
               (match_ends 0 matches) best)
     }"

text \<open>
  \<open>maxLen\<close> is a natural number here. The comparison \<^verbatim>\<open>lastPara > maxLen * 0.5\<close> is
  written \<open>2 * lastPara > maxLen\<close>. The value of \<^verbatim>\<open>best\<close> is computed as in the
  source, which does not use it afterwards.
\<close>

definition nextSafeBreak :: "jsstring \<Rightarrow> nat \<Rightarrow> nat \<Rightarrow> nat option" where
  "nextSafeBreak text start maxLen =
     (let slice' = slice text start (start + maxLen);
          len = length slice'
      in if len < maxLen then Some (start + len)
         else
           do {
             let best = start + maxLen;
             let segment = slice text start (start + maxLen + 200);
             best \<leftarrow> scan_best entityRe segment start maxLen best;
             best \<leftarrow> scan_best tagRe segment start maxLen best;
             best \<leftarrow> scan_best preRe segment start maxLen best;
             let lastPara = lastIndexOf slice' [NL, NL];
             let lastLine = lastIndexOf slice' [NL];
             let breakAt = (if 2 * lastPara > int maxLen then nat (lastPara + 1)
                            else if 2 * lastLine > int maxLen then nat (lastLine + 1)
                            else maxLen);
             Some (start + breakAt)
           })"

text \<open>
  \<^verbatim>\<open>while (start < text.length && (text[start] === "\n" || text[start] === " ")) start++;\<close>
\<close>

function skip_blank :: "jsstring \<Rightarrow> nat \<Rightarrow> nat" where
  "skip_blank text start =
     (if start < length text \<and> (text ! start = NL \<or> text ! start = SP)
      then skip_blank text (Suc start) else start)"
  by pat_completeness auto
termination
  by (relation "measure (\<lambda>(text, start). length text - start)") auto

declare skip_blank.simps [simp del]

text \<open>
  The outer loop of \<open>splitChunksSafe\<close>. Nothing in the source bounds the number of
  iterations, so the loop is a partial function: \<open>None\<close> when it does not end.
\<close>

partial_function (option) split_loop ::
  "jsstring \<Rightarrow> nat \<Rightarrow> nat \<Rightarrow> jsstring list \<Rightarrow> jsstring list option" where
  "split_loop text maxLen start chunks =
     (if start < length text
      then do {
        breakAt \<leftarrow> nextSafeBreak text start maxLen;
        split_loop text maxLen (skip_blank text breakAt)
          (chunks @ [trim (slice text start breakAt)])
      }
      else Some chunks)"

declare split_loop.simps [code]

definition splitChunksSafe :: "jsstring \<Rightarrow> nat \<Rightarrow> jsstring list option" where
  "splitChunksSafe text maxLen =
     (if length text \<le> maxLen then Some [text]
      else map_option (filter (\<lambda>c. c \<noteq> [])) (split_loop text maxLen 0 []))"

subsection \<open>Conservative HTML\<close>

text \<open>
  \<^verbatim>\<open>/^##\s+(.+)$/gm\<close>, \<^verbatim>\<open>/\*\*([^*\n]{1,80})\*\*/g\<close> and
  \<^verbatim>\<open>/(?<!\w)`([^`]+)`(?!\w)/g\<close>
\<close>

definition heading_re :: regex where
  "heading_re = seqs
     [Bol, Lit (str ''##''), plus_re (Class isSpace),
      Group 1 (plus_re (Class (\<lambda>c. \<not> isLineTerminator c))), Eol]"

definition bold_re :: regex where
  "bold_re = seqs
     [Lit (str ''**''),
      Group 1 (Rep True 1 (Some 80) (Class (\<lambda>c. c \<noteq> 42 \<and> c \<noteq> NL))),
      Lit (str ''**'')]"

definition code_re :: regex where
  "code_re = seqs
     [NotAfter isWord, Lit (str ''`''), Group 1 (plus_re (Class (\<lambda>c. c \<noteq> 96))),
      Lit (str ''`''), NotBefore isWord]"

definition markdownToTelegramHtmlConservative :: "jsstring \<Rightarrow> jsstring" where
  "markdownToTelegramHtmlConservative text =
     (let out = escapeHtml text;
          out = re_replace_all True heading_re
                  [RText (str ''<b>''), RGroup 1, RText (str ''</b>'')] out;
          out = re_replace_all False bold_re
                  [RText (str ''<b>''), RGroup 1, RText (str ''</b>'')] out;
          out = re_replace_all False code_re
                  [RText (str ''<code>''), RGroup 1, RText (str ''</code>'')] out
      in out)"

subsection \<open>The pipeline\<close>

text \<open>
  The values a caller can pass as \<^verbatim>\<open>text\<close>. Only \<open>JString\<close> has
  \<^verbatim>\<open>typeof text === "string"\<close>. (Numbers are integers here; objects are opaque.)
\<close>

datatype jsval =
    JUndefined
  | JNull
  | JBool bool
  | JNumber int
  | JString jsstring
  | JObject nat

text \<open>
  The options object; \<open>None\<close> is an absent (or \<^verbatim>\<open>undefined\<close>) property.
  \<open>opt_toHtml\<close> holds the truth value of the legacy flag.
\<close>

record options =
  opt_style :: "jsstring option"
  opt_toHtml :: "bool option"
  opt_maxChunkLength :: "nat option"
  opt_split :: "bool option"

record pipeline_result =
  chunks :: "jsstring list"
  parseMode :: "jsstring option"

text \<open>The per-chunk rendering of \<open>preprocess\<close> in HTML style.\<close>

definition render_chunk :: "jsstring \<Rightarrow> jsstring option" where
  "render_chunk chunk =
     do {
       (noF, b) \<leftarrow> extractFencedBlocks chunk;
       let transformed = markdownToTelegramHtmlConservative noF;
       Some (restoreFencedBlocks transformed b True)
     }"

text \<open>\<^verbatim>\<open>chunks.map(f)\<close> for an \<open>f\<close> that may not return.\<close>

fun map_all :: "('a \<Rightarrow> 'b option) \<Rightarrow> 'a list \<Rightarrow> 'b list option" where
  "map_all f [] = Some []"
| "map_all f (x # xs) = do { y \<leftarrow> f x; ys \<leftarrow> map_all f xs; Some (y # ys) }"

text \<open>
  \<^verbatim>\<open>const style = styleOpt ?? (toHtmlLegacy ? "telegramHtml" : "telegramPlain");
  const toHtml = style === "telegramHtml";\<close>
\<close>

definition style_of :: "options \<Rightarrow> jsstring" where
  "style_of opts =
     (case opt_style opts of
        Some s \<Rightarrow> s
      | None \<Rightarrow> if opt_toHtml opts = Some True then str ''telegramHtml''
                else str ''telegramPlain'')"

definition html_style :: "options \<Rightarrow> bool" where
  "html_style opts = (style_of opts = str ''telegramHtml'')"

text \<open>\<^verbatim>\<open>maxChunkLength = TELEGRAM_MAX_LENGTH\<close> in the destructuring of the options.\<close>

definition max_chunk_length :: "options \<Rightarrow> nat" where
  "max_chunk_length opts =
     (case opt_maxChunkLength opts of None \<Rightarrow> TELEGRAM_MAX_LENGTH | Some n \<Rightarrow> n)"

text \<open>
  The first three steps of \<open>preprocess\<close>: fences out, tables and whitespace, fences
  back in. Its value is \<^verbatim>\<open>content\<close>, the text that is then split.
\<close>

definition processed_text :: "jsstring \<Rightarrow> jsstring option" where
  "processed_text t =
     do {
       (withoutFences, blocks) \<leftarrow> extractFencedBlocks t;
       let content = convertTablesToBullets withoutFences;
       Some (restoreFencedBlocks content blocks False)
     }"

text \<open>
  What a caller can pass as \<^verbatim>\<open>options\<close>: nothing (or \<^verbatim>\<open>undefined\<close>), for which the
  parameter's default \<^verbatim>\<open>{}\<close> is taken; \<^verbatim>\<open>null\<close>; or an object. (A number, a string
  or a boolean is destructured like an object that has none of the four properties.)
\<close>

datatype options_arg =
    OptUndefined
  | OptNull
  | OptObject options

datatype js_error = TypeError

definition no_options :: options where
  "no_options =
     \<lparr>opt_style = None, opt_toHtml = None, opt_maxChunkLength = None, opt_split = None\<rparr>"

text \<open>
  \<^verbatim>\<open>options = {}\<close> in the parameter list and
  \<^verbatim>\<open>const { style: styleOpt, toHtml: toHtmlLegacy, maxChunkLength = ..., split = true } = options;\<close>
  the first statement of \<open>preprocess\<close>. Destructuring \<^verbatim>\<open>null\<close> throws a
  \<^verbatim>\<open>TypeError\<close>.
\<close>

fun destructure :: "options_arg \<Rightarrow> js_error + options" where
  "destructure OptUndefined = Inr no_options"
| "destructure OptNull = Inl TypeError"
| "destructure (OptObject opts) = Inr opts"

text \<open>
  The statements of \<open>preprocess\<close> after the destructuring, for the options \<open>opts\<close>
  it yielded. None of them throws; \<open>None\<close> is a run that does not return.
\<close>

definition preprocess_with :: "jsval \<Rightarrow> options \<Rightarrow> pipeline_result option" where
  "preprocess_with text opts =
     (let maxChunkLength = max_chunk_length opts;
          split = (case opt_split opts of None \<Rightarrow> True | Some b \<Rightarrow> b);
          asHtml = html_style opts
      in case text of
           JString t \<Rightarrow>
             do {
               content \<leftarrow> processed_text t;
               chunks \<leftarrow> (if split then splitChunksSafe content maxChunkLength
                          else Some [content]);
               finalChunks \<leftarrow> (if asHtml then map_all render_chunk chunks else Some chunks);
               let parseMode = (if asHtml then Some (str ''HTML'') else None);
               Some \<lparr>chunks = finalChunks, parseMode = parseMode\<rparr>
             }
         | _ \<Rightarrow> Some \<lparr>chunks = [[]], parseMode = None\<rparr>)"

text \<open>
  The entry point. The options are destructured first, before the test of
  \<^verbatim>\<open>typeof text\<close>: with \<^verbatim>\<open>null\<close> for options the call throws whatever the text is.
\<close>

definition preprocess :: "jsval \<Rightarrow> options_arg \<Rightarrow> (js_error + pipeline_result) option" where
  "preprocess text arg =
     (case destructure arg of
        Inl e \<Rightarrow> Some (Inl e)
      | Inr opts \<Rightarrow> map_option Inr (preprocess_with text opts))"

section \<open>The wrapper (proxy.mjs)\<close>

text \<open>
  The wrapper calls the entry point of \<^verbatim>\<open>index.mjs\<close> under the name \<^verbatim>\<open>preprocess\<close>,
  always with an object literal for the options: the destructuring succeeds, and the
  call is \<open>preprocess_with\<close> on that object.
  The underlying client is a black box: a state and a \<^verbatim>\<open>sendMessage\<close> that, given a call,
  answers with a response or fails, and moves to a new state. A failure propagates to
  the wrapper's caller. The delay between chunks is not part of the model.
\<close>

text \<open>
  The options object of a send: its properties in order, each a name and a value.
  \<open>get_prop\<close> reads a property (\<^verbatim>\<open>undefined\<close> when absent), \<open>set_prop\<close> assigns one.
\<close>

type_synonym send_options = "(string \<times> jsval) list"

definition get_prop :: "send_options \<Rightarrow> string \<Rightarrow> jsval" where
  "get_prop opts k = (case map_of opts k of None \<Rightarrow> JUndefined | Some v \<Rightarrow> v)"

fun set_prop :: "string \<Rightarrow> jsval \<Rightarrow> send_options \<Rightarrow> send_options" where
  "set_prop k v [] = [(k, v)]"
| "set_prop k v ((k', v') # ps) =
     (if k = k' then (k, v) # ps else (k', v') # set_prop k v ps)"

record send_call =
  call_chatId :: jsval
  call_text :: jsval
  call_options :: send_options

type_synonym ('c, 'e, 'r) client = "'c \<Rightarrow> send_call \<Rightarrow> ('e + 'r) \<times> 'c"

text \<open>
  What a call of the wrapper's \<open>sendMessage\<close> leaves behind: the value it returns (the
  responses, or the client's failure), the client's state, and the underlying calls
  it made, in order.
\<close>

record ('c, 'e, 'r) outcome =
  returned :: "'e + 'r list"
  client_state :: 'c
  sent :: "send_call list"

record proxy_options =
  po_style :: "jsstring option"
  po_maxChunkLength :: "nat option"
  po_split :: "bool option"
  po_chunkDelayMs :: nat
  po_enabled :: bool

text \<open>
  The defaults the constructor merges the caller's options into, and the mock client
  of \<^verbatim>\<open>test-proxy.mjs\<close>, whose state is the number of messages sent so far and whose
  response is the new message's number.
\<close>

definition default_proxy_options :: proxy_options where
  "default_proxy_options =
     \<lparr>po_style = Some (str ''telegramPlain''), po_maxChunkLength = Some 4096,
      po_split = Some True, po_chunkDelayMs = 300, po_enabled = True\<rparr>"

definition mock_client :: "(nat, unit, nat) client" where
  "mock_client n call = (Inr (Suc n), Suc n)"

text \<open>JavaScript truthiness.\<close>

fun truthy :: "jsval \<Rightarrow> bool" where
  "truthy JUndefined = False"
| "truthy JNull = False"
| "truthy (JBool b) = b"
| "truthy (JNumber n) = (n \<noteq> 0)"
| "truthy (JString s) = (s \<noteq> [])"
| "truthy (JObject a) = True"

text \<open>\<^verbatim>\<open>typeof text !== "string" || text.trim() === ""\<close>\<close>

fun not_text :: "jsval \<Rightarrow> bool" where
  "not_text (JString t) = (trim t = [])"
| "not_text v = True"

text \<open>The loop over the chunks; \<open>rs\<close> and \<open>tr\<close> are the responses and the calls so far.\<close>

fun send_chunks ::
  "('c, 'e, 'r) client \<Rightarrow> 'c \<Rightarrow> jsval \<Rightarrow> jsstring list \<Rightarrow> send_options \<Rightarrow>
   'r list \<Rightarrow> send_call list \<Rightarrow> ('c, 'e, 'r) outcome" where
  "send_chunks send c chatId [] baseOptions rs tr =
     \<lparr>returned = Inr rs, client_state = c, sent = tr\<rparr>"
| "send_chunks send c chatId (chunk # others) baseOptions rs tr =
     (let call = \<lparr>call_chatId = chatId, call_text = JString chunk, call_options = baseOptions\<rparr>
      in case send c call of
           (Inl e, c') \<Rightarrow> \<lparr>returned = Inl e, client_state = c', sent = tr @ [call]\<rparr>
         | (Inr res, c') \<Rightarrow> send_chunks send c' chatId others baseOptions (rs @ [res]) (tr @ [call]))"

text \<open>
  The options \<open>sendMessage\<close> passes to the pipeline:
  \<^verbatim>\<open>{ style: this._options.style, maxChunkLength: this._options.maxChunkLength,
  split: this._options.split }\<close>
\<close>

definition pipeline_options :: "proxy_options \<Rightarrow> options" where
  "pipeline_options po =
     \<lparr>opt_style = po_style po, opt_toHtml = None,
      opt_maxChunkLength = po_maxChunkLength po, opt_split = po_split po\<rparr>"

definition sendMessage ::
  "proxy_options \<Rightarrow> ('c, 'e, 'r) client \<Rightarrow> 'c \<Rightarrow> jsval \<Rightarrow> jsval \<Rightarrow> send_options \<Rightarrow>
   ('c, 'e, 'r) outcome option" where
  "sendMessage po send c chatId text opts =
     (if \<not> po_enabled po \<or> not_text text
      then
        (let call = \<lparr>call_chatId = chatId, call_text = text, call_options = opts\<rparr>
         in case send c call of
              (Inl e, c') \<Rightarrow> Some \<lparr>returned = Inl e, client_state = c', sent = [call]\<rparr>
            | (Inr res, c') \<Rightarrow> Some \<lparr>returned = Inr [res], client_state = c', sent = [call]\<rparr>)
      else
        do {
          r \<leftarrow> preprocess_with text (pipeline_options po);
          let baseOptions =
                (case parseMode r of
                   Some mode \<Rightarrow>
                     if \<not> truthy (get_prop opts ''parse_mode'')
                     then set_prop ''parse_mode'' (JString mode) opts else opts
                 | None \<Rightarrow> opts);
          Some (send_chunks send c chatId (chunks r) baseOptions [] [])
        })"


section \<open>Every match consumes at least \<open>minlen\<close> characters\<close>


fun minlen :: "regex \<Rightarrow> nat" where
  "minlen (Lit s) = length s"
| "minlen (Class P) = 1"
| "minlen (Seq a b) = minlen a + minlen b"
| "minlen (Alt a b) = min (minlen a) (minlen b)"
| "minlen (Rep g mn mx r) = (case mx of None \<Rightarrow> mn | Some k \<Rightarrow> min mn k) * minlen r"
| "minlen (Group n r) = minlen r"
| "minlen r = 0"

lemma startsWith_prefix: "startsWith s p = prefix p s"
  by (induction s p rule: startsWith.induct) auto

lemma startsWith_length: "startsWith s p \<Longrightarrow> length p \<le> length s"
  by (simp add: startsWith_prefix prefix_length_le)

lemma rep_iter_minlen:
  "(\<And>s s'. s' \<in> set (f s) \<Longrightarrow> length (rest s') + k \<le> length (rest s)) \<Longrightarrow>
   st' \<in> set (rep_iter f greedy mn mx st) \<Longrightarrow>
   length (rest st') + (case mx of None \<Rightarrow> mn | Some j \<Rightarrow> min mn j) * k \<le> length (rest st)"
proof (induction f greedy mn mx st arbitrary: st' rule: rep_iter.induct)
  case (1 f greedy mn mx st)
  show ?case
  proof (cases "mx = Some 0")
    case True
    with "1.prems"(2) show ?thesis by (simp add: rep_iter.simps)
  next
    case False
    from "1.prems"(2) False consider "st' = st" "mn = 0"
      | s where "s \<in> set (f st)" "st' \<in> set (rep_iter f greedy (mn - 1) (dec_max mx) s)"
        "if mn = 0 then length (rest s) < length (rest st) else length (rest s) \<le> length (rest st)"
      by (subst (asm) rep_iter.simps) (auto simp: Let_def split: if_splits)
    then show ?thesis
    proof cases
      case 1
      then show ?thesis by (simp split: option.splits)
    next
      case 2
      have a: "length (rest st') + (case dec_max mx of None \<Rightarrow> mn - 1 | Some j \<Rightarrow> min (mn - 1) j) * k
                 \<le> length (rest s)"
        using "1.IH"[OF False _ "1.prems"(1) 2(2)] 2(1,3) by simp
      have b: "length (rest s) + k \<le> length (rest st)" using "1.prems"(1) 2(1) by blast
      have c: "(case mx of None \<Rightarrow> mn | Some j \<Rightarrow> min mn j) * k
                 \<le> (case dec_max mx of None \<Rightarrow> mn - 1 | Some j \<Rightarrow> min (mn - 1) j) * k + k"
      proof -
        have "(case mx of None \<Rightarrow> mn | Some j \<Rightarrow> min mn j)
                 \<le> Suc (case dec_max mx of None \<Rightarrow> mn - 1 | Some j \<Rightarrow> min (mn - 1) j)"
          using False by (cases mx) auto
        then have "(case mx of None \<Rightarrow> mn | Some j \<Rightarrow> min mn j) * k
                 \<le> Suc (case dec_max mx of None \<Rightarrow> mn - 1 | Some j \<Rightarrow> min (mn - 1) j) * k"
          by (rule mult_le_mono1)
        then show ?thesis by simp
      qed
      from a b c show ?thesis by linarith
    qed
  qed
qed

lemma ms_minlen: "st' \<in> set (ms m r st) \<Longrightarrow> length (rest st') + minlen r \<le> length (rest st)"
proof (induction r arbitrary: st st')
  case (Lit s)
  then show ?case by (auto simp: consume_rest dest: startsWith_length split: if_splits)
next
  case (Class P)
  then show ?case by (cases "rest st") (auto simp: consume_rest split: if_splits)
next
  case (Seq a b)
  from Seq.prems obtain s where "s \<in> set (ms m a st)" "st' \<in> set (ms m b s)" by auto
  with Seq.IH(1)[of s st] Seq.IH(2)[of st' s] show ?case by simp
next
  case (Alt a b)
  then show ?case by fastforce
next
  case (Rep g mn mx r)
  have "\<And>s s'. s' \<in> set (ms m r (clear_caps (group_ids r) s)) \<Longrightarrow>
          length (rest s') + minlen r \<le> length (rest s)"
    using Rep.IH by (fastforce simp: clear_caps_def)
  from rep_iter_minlen[where f = "\<lambda>s. ms m r (clear_caps (group_ids r) s)", OF this] Rep.prems
  show ?case by simp
next
  case (Group n r)
  then show ?case by auto
next
  case (Backref n)
  then show ?case by (auto simp: consume_rest split: if_splits option.splits)
next
  case Bol
  then show ?case by (auto split: if_splits option.splits)
next
  case Eol
  then show ?case by (auto split: if_splits list.splits)
next
  case (NotAfter P)
  then show ?case by (auto split: if_splits option.splits)
next
  case (NotBefore P)
  then show ?case by (auto split: if_splits list.splits)
qed

lemma match_at_minlen: "match_at m r p s = Some mt \<Longrightarrow> minlen r \<le> length (matched mt)"
proof -
  assume a: "match_at m r p s = Some mt"
  then obtain st' sts where ms: "ms m r \<lparr>prev = p, rest = s, caps = []\<rparr> = st' # sts"
    by (auto simp: match_at_def split: list.splits)
  then have "length (rest st') + minlen r \<le> length s"
    using ms_minlen[of st' m r "\<lparr>prev = p, rest = s, caps = []\<rparr>"] by simp
  with a ms show ?thesis by (auto simp: match_at_def)
qed

lemma re_exec_minlen: "re_exec m r p s = Some mt \<Longrightarrow> minlen r \<le> length (matched mt)"
proof (induction s arbitrary: p mt)
  case Nil
  then show ?case using match_at_minlen[of m r p "[]" mt] by simp
next
  case (Cons c cs)
  show ?case
  proof (cases "match_at m r p (c # cs)")
    case (Some mt')
    with Cons.prems match_at_minlen[of m r p "c # cs" mt] show ?thesis by simp
  next
    case None
    with Cons.prems obtain mt' where
      mt': "re_exec m r (Some c) cs = Some mt'" "mt = mt'\<lparr>skipped := c # skipped mt'\<rparr>"
      by auto
    from Cons.IH[OF mt'(1)] mt'(2) show ?thesis by simp
  qed
qed

lemma exec_all_total: "0 < minlen r \<Longrightarrow> \<exists>mts. exec_all m r p s = Some mts"
proof (induction m r p s rule: exec_all.induct)
  case (1 m r p s)
  show ?case
  proof (cases "re_exec m r p s")
    case None
    then show ?thesis by (simp add: exec_all.simps)
  next
    case (Some mt)
    with re_exec_minlen[OF Some] "1.prems" have ne: "matched mt \<noteq> []" by auto
    from "1.IH"[OF Some ne "1.prems"] obtain mts where
      "exec_all m r (after_prev mt) (after mt) = Some mts" by blast
    with Some ne show ?thesis by (subst exec_all.simps) simp
  qed
qed

lemma minlen_fence_re: "0 < minlen fence_re"
  by (simp add: fence_re_def star_re_def lazy_star_re_def)

lemma extractFencedBlocks_total: "\<exists>wf blocks. extractFencedBlocks t = Some (wf, blocks)"
  using exec_all_total[OF minlen_fence_re, of True None t]
  by (auto simp: extractFencedBlocks_def)



section \<open>The pipeline returns\<close>

lemma map_all_single: "map_all f [x] = map_option (\<lambda>y. [y]) (f x)"
  by (cases "f x") auto

lemma render_chunk_total: "\<exists>h. render_chunk c = Some h"
  using extractFencedBlocks_total[of c] by (auto simp: render_chunk_def)

lemma processed_text_total: "\<exists>c. processed_text t = Some c"
  using extractFencedBlocks_total[of t] by (auto simp: processed_text_def)

section \<open>The sending loop\<close>

lemma map_of_set_prop: "map_of (set_prop k v ps) = (map_of ps)(k \<mapsto> v)"
  by (induction ps) (auto simp: fun_eq_iff)

lemma get_prop_set_prop_other: "k' \<noteq> k \<Longrightarrow> get_prop (set_prop k v ps) k' = get_prop ps k'"
  by (simp add: get_prop_def map_of_set_prop)

lemma get_prop_set_prop_same: "get_prop (set_prop k v ps) k = v"
  by (simp add: get_prop_def map_of_set_prop)

lemma send_chunks_sent:
  "\<exists>n \<le> length cs.
     sent (send_chunks send c chatId cs base rs tr) =
       tr @ map (\<lambda>ch. \<lparr>call_chatId = chatId, call_text = JString ch, call_options = base\<rparr>) (take n cs) \<and>
     ((\<exists>rs'. returned (send_chunks send c chatId cs base rs tr) = Inr rs') \<longrightarrow> n = length cs)"
proof (induction cs arbitrary: c rs tr)
  case Nil
  then show ?case by simp
next
  case (Cons ch cs)
  let ?call = "\<lparr>call_chatId = chatId, call_text = JString ch, call_options = base\<rparr>"
  show ?case
  proof (cases "send c ?call")
    case (Pair res c')
    show ?thesis
    proof (cases res)
      case (Inl e)
      with Pair have "sent (send_chunks send c chatId (ch # cs) base rs tr) =
        tr @ map (\<lambda>ch. \<lparr>call_chatId = chatId, call_text = JString ch, call_options = base\<rparr>) (take 1 (ch # cs))"
        and "returned (send_chunks send c chatId (ch # cs) base rs tr) = Inl e"
        by simp_all
      then show ?thesis by (intro exI[of _ 1]) simp
    next
      case (Inr r)
      from Cons.IH[of c' "rs @ [r]" "tr @ [?call]"] obtain n where
        n: "n \<le> length cs" "sent (send_chunks send c' chatId cs base (rs @ [r]) (tr @ [?call])) =
          (tr @ [?call]) @ map (\<lambda>ch. \<lparr>call_chatId = chatId, call_text = JString ch, call_options = base\<rparr>) (take n cs)"
          "(\<exists>rs'. returned (send_chunks send c' chatId cs base (rs @ [r]) (tr @ [?call])) = Inr rs') \<longrightarrow>
             n = length cs"
        by blast
      with Pair Inr show ?thesis by (intro exI[of _ "Suc n"]) simp
    qed
  qed
qed

lemma preprocess_with_parseMode:
  "preprocess_with (JString t) opts = Some r \<Longrightarrow>
   parseMode r = (if html_style opts then Some (str ''HTML'') else None)"
  by (auto simp: preprocess_with_def Let_def split: bind_splits if_splits)

lemma preprocess_object:
  "preprocess text (OptObject opts) = map_option Inr (preprocess_with text opts)"
  by (simp add: preprocess_def)

lemma not_text_string: "\<not> not_text v \<Longrightarrow> \<exists>t. v = JString t \<and> trim t \<noteq> []"
  by (cases v) auto

section \<open>The chunk loop\<close>

text \<open>
  \<open>covers cs t\<close>: the text \<open>t\<close> is the chunks \<open>cs\<close> in order, with nothing but
  whitespace before, between and after them.
\<close>

fun covers :: "jsstring list \<Rightarrow> jsstring \<Rightarrow> bool" where
  "covers [] t = list_all isSpace t"
| "covers (c # cs) t =
     (let t' = dropWhile isSpace t
      in startsWith t' c \<and> covers cs (drop (length c) t'))"

lemma covers_examples:
  "covers [str ''ab'', str ''cd''] (str '' ab'' @ [NL, NL] @ str ''cd '')"
  "\<not> covers [str ''ab'', str ''cd''] (str ''ab x cd'')"
  "\<not> covers [str ''ab'', str ''cd''] (str ''ab c'')"
  by code_simp+

lemma minlen_entityRe: "0 < minlen entityRe"
  by (simp add: entityRe_def plus_re_def str_def)

lemma minlen_tagRe: "0 < minlen tagRe"
  by (simp add: tagRe_def plus_re_def str_def)

lemma minlen_preRe: "0 < minlen preRe"
  by (simp add: preRe_def lazy_star_re_def str_def)

lemma scan_best_total:
  "0 < minlen re \<Longrightarrow> \<exists>b. scan_best re segment start maxLen best = Some b"
  using exec_all_total[of re False None segment] by (auto simp: scan_best_def)

lemma nextSafeBreak_progress:
  assumes "start < length text" and "1 \<le> maxLen"
  shows "\<exists>b. nextSafeBreak text start maxLen = Some b \<and> start < b"
proof (cases "length (slice text start (start + maxLen)) < maxLen")
  case True
  have "length (slice text start (start + maxLen)) > 0"
    using assms by (simp add: slice_def)
  with True show ?thesis by (simp add: nextSafeBreak_def Let_def)
next
  case False
  obtain b1 where b1: "scan_best entityRe (slice text start (start + maxLen + 200)) start maxLen
                          (start + maxLen) = Some b1"
    using scan_best_total[OF minlen_entityRe] by blast
  obtain b2 where b2: "scan_best tagRe (slice text start (start + maxLen + 200)) start maxLen b1 = Some b2"
    using scan_best_total[OF minlen_tagRe] by blast
  obtain b3 where b3: "scan_best preRe (slice text start (start + maxLen + 200)) start maxLen b2 = Some b3"
    using scan_best_total[OF minlen_preRe] by blast
  define lastPara where "lastPara = lastIndexOf (slice text start (start + maxLen)) [NL, NL]"
  define lastLine where "lastLine = lastIndexOf (slice text start (start + maxLen)) [NL]"
  define breakAt where "breakAt = (if 2 * lastPara > int maxLen then nat (lastPara + 1)
                            else if 2 * lastLine > int maxLen then nat (lastLine + 1)
                            else maxLen)"
  have "nextSafeBreak text start maxLen = Some (start + breakAt)"
    using False b1 b2 b3
    by (simp add: nextSafeBreak_def Let_def breakAt_def lastPara_def lastLine_def)
  moreover have "0 < breakAt" using assms(2) by (auto simp: breakAt_def)
  ultimately show ?thesis by simp
qed

lemma skip_blank_ge: "start \<le> skip_blank t start"
proof (induction t start rule: skip_blank.induct)
  case (1 t start)
  show ?case
  proof (cases "start < length t \<and> (t ! start = NL \<or> t ! start = SP)")
    case True
    with "1.IH" show ?thesis by (subst skip_blank.simps) simp
  next
    case False
    then show ?thesis by (subst skip_blank.simps) auto
  qed
qed

lemma isSpace_NL_SP: "isSpace NL" "isSpace SP"
  by (simp_all add: isSpace_def NL_def SP_def)

lemma skip_blank_drop:
  "\<exists>w. drop start t = w @ drop (skip_blank t start) t \<and> list_all isSpace w"
proof (induction t start rule: skip_blank.induct)
  case (1 t start)
  show ?case
  proof (cases "start < length t \<and> (t ! start = NL \<or> t ! start = SP)")
    case True
    then obtain w where w: "drop (Suc start) t = w @ drop (skip_blank t (Suc start)) t"
      "list_all isSpace w" using "1.IH" by blast
    from True have sk: "skip_blank t start = skip_blank t (Suc start)"
      by (subst skip_blank.simps) simp
    from True have "drop start t = t ! start # drop (Suc start) t"
      by (simp add: Cons_nth_drop_Suc)
    with w sk have "drop start t = (t ! start # w) @ drop (skip_blank t start) t" by simp
    moreover from True w(2) have "list_all isSpace (t ! start # w)"
      by (auto simp: isSpace_NL_SP)
    ultimately show ?thesis by blast
  next
    case False
    then have "skip_blank t start = start" by (subst skip_blank.simps) auto
    then show ?thesis by simp
  qed
qed

lemma trimEnd_parts: "\<exists>r. s = trimEnd s @ r \<and> list_all isSpace r"
proof -
  have "rev s = takeWhile isSpace (rev s) @ dropWhile isSpace (rev s)" by simp
  then have "s = rev (dropWhile isSpace (rev s)) @ rev (takeWhile isSpace (rev s))"
    by (metis rev_append rev_rev_ident)
  moreover have "list_all isSpace (rev (takeWhile isSpace (rev s)))"
    by (simp add: list_all_iff) (meson set_takeWhileD)
  ultimately show ?thesis by (auto simp: trimEnd_def)
qed

lemma trim_parts: "\<exists>l r. s = l @ trim s @ r \<and> list_all isSpace l \<and> list_all isSpace r"
proof -
  obtain r where r: "trimStart s = trimEnd (trimStart s) @ r" "list_all isSpace r"
    using trimEnd_parts by blast
  have "s = takeWhile isSpace s @ trimStart s" by (simp add: trimStart_def)
  with r(1) have "s = takeWhile isSpace s @ trim s @ r" by (simp add: trim_def)
  moreover have "list_all isSpace (takeWhile isSpace s)"
    by (simp add: list_all_iff) (meson set_takeWhileD)
  ultimately show ?thesis using r(2) by blast
qed

lemma trimEnd_prefix: "prefix (trimEnd s) s"
  using trimEnd_parts[of s] by (auto simp: prefix_def)

lemma trim_hd: "trim s \<noteq> [] \<Longrightarrow> \<not> isSpace (hd (trim s))"
proof -
  assume a: "trim s \<noteq> []"
  from trimEnd_prefix[of "trimStart s"] a have "hd (trim s) = hd (trimStart s)"
    unfolding trim_def prefix_def by (metis hd_append2)
  moreover from a have "trimStart s \<noteq> []" by (auto simp: trim_def trimEnd_def)
  ultimately show ?thesis by (simp add: trimStart_def hd_dropWhile)
qed

lemma trimEnd_last: "trimEnd s \<noteq> [] \<Longrightarrow> \<not> isSpace (last (trimEnd s))"
  by (simp add: trimEnd_def last_rev hd_dropWhile)

lemma trimEnd_id: "s \<noteq> [] \<Longrightarrow> \<not> isSpace (last s) \<Longrightarrow> trimEnd s = s"
  by (cases s rule: rev_cases) (auto simp: trimEnd_def)

lemma trimStart_id: "s \<noteq> [] \<Longrightarrow> \<not> isSpace (hd s) \<Longrightarrow> trimStart s = s"
  by (cases s) (auto simp: trimStart_def)

lemma trim_idem: "trim (trim s) = trim s"
proof (cases "trim s = []")
  case True
  have "trim [] = []" by (simp add: trim_def trimStart_def trimEnd_def)
  with True show ?thesis by simp
next
  case False
  have "trimStart (trim s) = trim s" using False trim_hd by (simp add: trimStart_id)
  moreover have "trimEnd (trim s) = trim s"
    using False trimEnd_last[of "trimStart s"] by (simp add: trim_def trimEnd_id)
  ultimately show ?thesis by (simp add: trim_def[of "trim s"])
qed

lemma covers_ws_prefix: "list_all isSpace g \<Longrightarrow> covers cs (g @ t) = covers cs t"
  by (cases cs) (auto simp: list_all_iff dropWhile_append2)

lemma covers_chunk:
  "c \<noteq> [] \<Longrightarrow> \<not> isSpace (hd c) \<Longrightarrow> covers (c # cs) (c @ t) = covers cs t"
  by (cases c) (auto simp: startsWith_prefix Let_def)

lemma split_loop_covers:
  assumes "1 \<le> maxLen"
  shows "\<exists>new. split_loop text maxLen start acc = Some (acc @ new) \<and>
           (\<forall>c \<in> set new. trim c = c) \<and>
           covers (filter (\<lambda>c. c \<noteq> []) new) (drop start text)"
proof (induction "length text - start" arbitrary: start acc rule: less_induct)
  case less
  show ?case
  proof (cases "start < length text")
    case False
    then have "split_loop text maxLen start acc = Some acc"
      by (subst split_loop.simps) simp
    with False show ?thesis by (intro exI[of _ "[]"]) simp
  next
    case True
    obtain b where b: "nextSafeBreak text start maxLen = Some b" "start < b"
      using nextSafeBreak_progress[OF True assms] by blast
    define c where "c = trim (slice text start b)"
    define s' where "s' = skip_blank text b"
    have s': "b \<le> s'" by (simp add: s'_def skip_blank_ge)
    with b(2) True have "length text - s' < length text - start" by simp
    from less[OF this, of "acc @ [c]"] obtain new' where new':
      "split_loop text maxLen s' (acc @ [c]) = Some ((acc @ [c]) @ new')"
      "\<forall>c \<in> set new'. trim c = c"
      "covers (filter (\<lambda>c. c \<noteq> []) new') (drop s' text)" by blast
    have loop: "split_loop text maxLen start acc = Some (acc @ (c # new'))"
      using True b(1) new'(1) by (subst split_loop.simps) (simp add: c_def s'_def)
    obtain l r where lr: "slice text start b = l @ c @ r" "list_all isSpace l" "list_all isSpace r"
      using trim_parts[of "slice text start b"] c_def by blast
    obtain w where w: "drop b text = w @ drop s' text" "list_all isSpace w"
      using skip_blank_drop[of b "text"] s'_def by blast
    have "drop start text = slice text start b @ drop b text"
      using b(2) by (simp add: slice_def) (metis add_diff_inverse_nat append_take_drop_id drop_drop less_imp_le_nat not_less add.commute)
    with lr w have parts: "drop start text = l @ c @ (r @ w) @ drop s' text" by simp
    have rw: "list_all isSpace (r @ w)" using lr(3) w(2) by simp
    have "covers (filter (\<lambda>c. c \<noteq> []) (c # new')) (drop start text)"
    proof (cases "c = []")
      case True
      have "covers (filter (\<lambda>c. c \<noteq> []) new') (l @ (r @ w) @ drop s' text)"
        using new'(3) lr(2) rw by (simp only: covers_ws_prefix)
      with True parts show ?thesis by simp
    next
      case False
      then have h: "\<not> isSpace (hd c)" using trim_hd c_def by blast
      have "covers (filter (\<lambda>c. c \<noteq> []) new') ((r @ w) @ drop s' text)"
        using new'(3) rw by (simp only: covers_ws_prefix)
      then have "covers (c # filter (\<lambda>c. c \<noteq> []) new') (c @ (r @ w) @ drop s' text)"
        using covers_chunk[OF False h, of "filter (\<lambda>c. c \<noteq> []) new'" "(r @ w) @ drop s' text"]
        by blast
      then have "covers (c # filter (\<lambda>c. c \<noteq> []) new') (l @ c @ (r @ w) @ drop s' text)"
        using lr(2) by (simp only: covers_ws_prefix)
      with False parts show ?thesis by simp
    qed
    moreover have "\<forall>x \<in> set (c # new'). trim x = x"
      using new'(2) by (simp add: c_def trim_idem)
    ultimately show ?thesis using loop by blast
  qed
qed

text \<open>
  The breakpoint never leaves the window: the scan for entities, tags and
  \<^verbatim>\<open><pre>\<close> elements cannot change \<open>best\<close>, and \<open>best\<close> is not returned.
\<close>

lemma lastIndexFrom_bounds:
  "lastIndexFrom i s p = -1 \<or>
   (int i \<le> lastIndexFrom i s p \<and> lastIndexFrom i s p + int (length p) \<le> int i + int (length s))"
proof (induction s arbitrary: i)
  case Nil
  then show ?case by simp
next
  case (Cons c cs)
  from Cons[of "Suc i"] show ?case
    by (auto simp: Let_def dest: startsWith_length)
qed

lemma scan_best_keeps:
  "scan_best re segment start maxLen (start + maxLen) = Some b \<Longrightarrow> b = start + maxLen"
proof -
  have "fold (\<lambda>e best. let end = start + e
                             in if end > start + maxLen \<and> end < best then end else best)
               es (start + maxLen) = start + maxLen" for es
    by (induction es) (auto simp: Let_def)
  then show "scan_best re segment start maxLen (start + maxLen) = Some b \<Longrightarrow> b = start + maxLen"
    by (auto simp: scan_best_def split: option.splits bind_splits)
qed

lemma nextSafeBreak_in_window:
  assumes "nextSafeBreak text start maxLen = Some b"
  shows "b \<le> start + maxLen"
proof (cases "length (slice text start (start + maxLen)) < maxLen")
  case True
  with assms show ?thesis by (auto simp: nextSafeBreak_def Let_def)
next
  case False
  have len: "length (slice text start (start + maxLen)) \<le> maxLen" by (simp add: slice_def)
  define lastPara where "lastPara = lastIndexOf (slice text start (start + maxLen)) [NL, NL]"
  define lastLine where "lastLine = lastIndexOf (slice text start (start + maxLen)) [NL]"
  have p: "lastPara + 1 \<le> int maxLen"
    using lastIndexFrom_bounds[of 0 "slice text start (start + maxLen)" "[NL, NL]"] len
    by (auto simp: lastPara_def lastIndexOf_def)
  have l: "lastLine + 1 \<le> int maxLen"
    using lastIndexFrom_bounds[of 0 "slice text start (start + maxLen)" "[NL]"] len
    by (auto simp: lastLine_def lastIndexOf_def)
  from assms False have "b = start + (if 2 * lastPara > int maxLen then nat (lastPara + 1)
                            else if 2 * lastLine > int maxLen then nat (lastLine + 1)
                            else maxLen)"
    by (auto simp: nextSafeBreak_def Let_def lastPara_def lastLine_def split: bind_splits)
  with p l show ?thesis by auto
qed

text \<open>With \<open>maxLen = 0\<close> the loop does not end: each breakpoint is \<open>start\<close> itself.\<close>

lemma split_loop_zero:
  assumes "split_loop t m s acc = Some y"
  shows "\<not> (t = str ''a'' \<and> m = 0 \<and> s = 0)"
proof (rule split_loop.raw_induct[where P = "\<lambda>t m s acc y. \<not> (t = str ''a'' \<and> m = 0 \<and> s = 0)",
      OF _ assms])
  fix sl :: "jsstring \<Rightarrow> nat \<Rightarrow> nat \<Rightarrow> jsstring list \<Rightarrow> jsstring list option"
  fix t m s acc y
  assume IH: "\<And>t m s acc y. sl t m s acc = Some y \<Longrightarrow> \<not> (t = str ''a'' \<and> m = 0 \<and> s = 0)"
  assume body: "(if s < length t
      then nextSafeBreak t s m \<bind>
           (\<lambda>breakAt. sl t m (skip_blank t breakAt) (acc @ [trim (slice t s breakAt)]))
      else Some acc) = Some y"
  show "\<not> (t = str ''a'' \<and> m = 0 \<and> s = 0)"
  proof
    assume a: "t = str ''a'' \<and> m = 0 \<and> s = 0"
    have n: "nextSafeBreak (str ''a'') 0 0 = Some 0" by code_simp
    have k: "skip_blank (str ''a'') 0 = 0" by code_simp
    have l: "0 < length (str ''a'')" by (simp add: str_def)
    from body a n k l have "sl (str ''a'') 0 0 (acc @ [trim (slice (str ''a'') 0 0)]) = Some y"
      by simp
    from IH[OF this] show False by simp
  qed
qed

lemma splitChunksSafe_zero: "splitChunksSafe (str ''a'') 0 = None"
proof (cases "split_loop (str ''a'') 0 0 []")
  case None
  then show ?thesis by (simp add: splitChunksSafe_def str_def)
next
  case (Some y)
  from split_loop_zero[OF Some] show ?thesis by simp
qed

lemma covers_strip:
  "covers cs t \<Longrightarrow>
   concat (map (filter (\<lambda>ch. \<not> isSpace ch)) cs) = filter (\<lambda>ch. \<not> isSpace ch) t"
proof (induction cs arbitrary: t)
  case Nil
  then show ?case by (simp add: list_all_iff)
next
  case (Cons c cs)
  define t' where "t' = dropWhile isSpace t"
  from Cons.prems have p: "prefix c t'" and r: "covers cs (drop (length c) t')"
    by (simp_all add: t'_def Let_def startsWith_prefix)
  from p have t': "t' = c @ drop (length c) t'" by (auto simp: prefix_def)
  have "filter (\<lambda>ch. \<not> isSpace ch) t = filter (\<lambda>ch. \<not> isSpace ch) (takeWhile isSpace t @ t')"
    by (simp add: t'_def)
  also have "\<dots> = filter (\<lambda>ch. \<not> isSpace ch) t'"
    by (simp add: filter_empty_conv) (meson set_takeWhileD)
  also have "\<dots> = filter (\<lambda>ch. \<not> isSpace ch) c @ filter (\<lambda>ch. \<not> isSpace ch) (drop (length c) t')"
    by (subst t') simp
  finally show ?case using Cons.IH[OF r] by simp
qed

text \<open>So the pipeline returns, unless it is asked to split at length 0.\<close>

lemma map_all_total: "(\<And>x. \<exists>y. f x = Some y) \<Longrightarrow> \<exists>ys. map_all f xs = Some ys"
proof (induction xs)
  case Nil
  then show ?case by simp
next
  case (Cons x xs)
  from Cons.prems obtain y where "f x = Some y" by blast
  moreover from Cons.IH[OF Cons.prems] obtain ys where "map_all f xs = Some ys" by blast
  ultimately show ?case by simp
qed

lemma splitChunksSafe_total: "1 \<le> maxLen \<Longrightarrow> \<exists>cs. splitChunksSafe t maxLen = Some cs"
  using split_loop_covers[of maxLen t 0 "[]"] by (auto simp: splitChunksSafe_def)

lemma preprocess_with_total:
  assumes "opt_split opts = Some False \<or> 1 \<le> max_chunk_length opts"
  shows "\<exists>r. preprocess_with v opts = Some r"
proof (cases v)
  case (JString t)
  obtain content where c: "processed_text t = Some content"
    using processed_text_total by blast
  show ?thesis
  proof (cases "opt_split opts = Some False")
    case True
    obtain h where "render_chunk content = Some h" using render_chunk_total by blast
    with JString c True show ?thesis
      by (cases "html_style opts") (simp_all add: preprocess_with_def Let_def)
  next
    case False
    with assms have "1 \<le> max_chunk_length opts" by simp
    from splitChunksSafe_total[OF this] obtain cs where
      cs: "splitChunksSafe content (max_chunk_length opts) = Some cs" by blast
    obtain hs where hs: "map_all render_chunk cs = Some hs"
      using map_all_total[of render_chunk cs] render_chunk_total by blast
    from False have sp: "(case opt_split opts of None \<Rightarrow> True | Some b \<Rightarrow> b)"
      by (cases "opt_split opts") auto
    from JString c cs hs sp show ?thesis
      by (cases "html_style opts")
         (simp_all add: preprocess_with_def Let_def max_chunk_length_def[symmetric])
  qed
qed (simp_all add: preprocess_with_def Let_def)

lemma preprocess_total:
  assumes "opt_split opts = Some False \<or> 1 \<le> max_chunk_length opts"
  shows "\<exists>r. preprocess v (OptObject opts) = Some (Inr r)"
  using preprocess_with_total[OF assms, of v] by (auto simp: preprocess_def)

section \<open>Whitespace normalisation, step by step\<close>

text \<open>
  The steps of the normalizer as the specification words them, each as a function on
  the characters. \<open>unify_line_endings\<close>: every CR LF pair and every other CR becomes
  one LF. \<open>collapse_newlines k\<close>: every maximal run of at least \<open>k\<close> newlines becomes
  two newlines (one blank line). \<open>normalize_steps k\<close>: the four steps in order; a run of
  \<open>b\<close> blank lines is a run of \<open>b + 1\<close> newlines, so "3 or more blank lines" is
  \<open>k = 4\<close>.
\<close>

fun unify_line_endings :: "jsstring \<Rightarrow> jsstring" where
  "unify_line_endings [] = []"
| "unify_line_endings [c] = (if c = CR then [NL] else [c])"
| "unify_line_endings (c # d # ds) =
     (if c = CR \<and> d = NL then NL # unify_line_endings ds
      else if c = CR then NL # unify_line_endings (d # ds)
      else c # unify_line_endings (d # ds))"

function collapse_newlines :: "nat \<Rightarrow> jsstring \<Rightarrow> jsstring" where
  "collapse_newlines k [] = []"
| "collapse_newlines k (c # cs) =
     (if c = NL
      then (let run = takeWhile (\<lambda>x. x = NL) (c # cs)
            in (if k \<le> length run then [NL, NL] else run) @
               collapse_newlines k (dropWhile (\<lambda>x. x = NL) cs))
      else c # collapse_newlines k cs)"
  by pat_completeness auto
termination
  by (relation "measure (\<lambda>(k, s). length s)") (auto simp: length_dropWhile_le less_Suc_eq_le)

definition normalize_steps :: "nat \<Rightarrow> jsstring \<Rightarrow> jsstring" where
  "normalize_steps k text =
     trim (join (map trimEnd (split_str (collapse_newlines k (unify_line_endings text)) [NL])) [NL])"

lemma expand_skipped: "expand rep (mt\<lparr>skipped := x\<rparr>) = expand rep mt"
  by (induction rep mt rule: expand.induct) (simp_all add: group_def)

lemma re_replace_from_Nil:
  "re_replace_from m r rep p [] =
     (case match_at m r p [] of None \<Rightarrow> [] | Some mt \<Rightarrow> expand rep mt)"
proof (cases "match_at m r p []")
  case None
  then show ?thesis by (subst re_replace_from.simps) simp
next
  case (Some mt)
  from match_at_parts[OF Some] have "skipped mt = []" "matched mt = []" "after mt = []" by auto
  with Some show ?thesis by (subst re_replace_from.simps) simp
qed

lemma re_replace_from_Cons:
  "re_replace_from m r rep p (c # cs) =
     (case match_at m r p (c # cs) of
        None \<Rightarrow> c # re_replace_from m r rep (Some c) cs
      | Some mt \<Rightarrow>
          expand rep mt @
          (if matched mt = [] then c # re_replace_from m r rep (Some c) cs
           else re_replace_from m r rep (after_prev mt) (after mt)))"
proof (cases "match_at m r p (c # cs)")
  case None
  show ?thesis
  proof (cases "re_exec m r (Some c) cs")
    case n: None
    with None show ?thesis
      by (subst re_replace_from.simps, subst (2) re_replace_from.simps) simp
  next
    case (Some mt')
    with None show ?thesis
      by (subst re_replace_from.simps, subst (3) re_replace_from.simps)
         (simp add: expand_skipped)
  qed
next
  case (Some mt)
  from match_at_parts[OF Some] have sk: "skipped mt = []" and parts: "c # cs = matched mt @ after mt"
    by auto
  show ?thesis
  proof (cases "matched mt = []")
    case True
    with parts have "after mt = c # cs" by simp
    with Some sk True show ?thesis by (subst re_replace_from.simps) simp
  next
    case False
    with Some sk show ?thesis by (subst re_replace_from.simps) simp
  qed
qed

lemma match_at_Lit:
  "match_at m (Lit pat) p s =
     (if startsWith s pat
      then Some \<lparr>skipped = [], matched = take (length pat) s, groups = [],
                 after_prev = prev (consume (length pat) \<lparr>prev = p, rest = s, caps = []\<rparr>),
                 after = drop (length pat) s\<rparr>
      else None)"
  by (auto simp: match_at_def consume_def min_def dest: startsWith_length)

text \<open>What the first replacement alone does: CR LF becomes LF.\<close>

fun crlf :: "jsstring \<Rightarrow> jsstring" where
  "crlf [] = []"
| "crlf [c] = [c]"
| "crlf (c # d # ds) = (if c = CR \<and> d = NL then NL # crlf ds else c # crlf (d # ds))"

lemma replace_crlf:
  "re_replace_from m (Lit [CR, NL]) [RText [NL]] p s = crlf s"
proof (induction s arbitrary: p rule: crlf.induct)
  case 1
  then show ?case by (simp add: re_replace_from_Nil match_at_Lit)
next
  case (2 c)
  then show ?case by (simp add: re_replace_from_Cons re_replace_from_Nil match_at_Lit)
next
  case (3 c d ds)
  then show ?case by (simp add: re_replace_from_Cons match_at_Lit)
qed

lemma replace_cr:
  "re_replace_from m (Lit [CR]) [RText [NL]] p s = map (\<lambda>c. if c = CR then NL else c) s"
  by (induction s arbitrary: p)
     (simp_all add: re_replace_from_Cons re_replace_from_Nil match_at_Lit)

lemma CR_neq_NL: "CR \<noteq> NL"
  by (simp add: CR_def NL_def)

lemma unify_line_endings_eq:
  "map (\<lambda>c. if c = CR then NL else c) (crlf s) = unify_line_endings s"
  by (induction s rule: crlf.induct) (auto simp: CR_neq_NL)

lemma consume_0: "consume 0 st = st"
  by (simp add: consume_def)

lemma consume_Suc: "rest st \<noteq> [] \<Longrightarrow> consume k (consume 1 st) = consume (Suc k) st"
  by (cases "rest st"; cases k) (auto simp: consume_def)

lemma upt_shift: "map Suc [a..<b] = [Suc a..<Suc b]"
  by (simp add: map_Suc_upt)

lemma rep_iter_single:
  assumes f: "\<And>s. f s = (case rest s of [] \<Rightarrow> [] | c # cs \<Rightarrow> if P c then [consume 1 s] else [])"
  shows "rep_iter f True mn None st =
           map (\<lambda>k. consume k st) (rev [mn..<Suc (length (takeWhile P (rest st)))])"
proof (induction "rest st" arbitrary: st mn)
  case Nil
  then have "f st = []" by (simp add: f)
  with Nil[symmetric] show ?case
    by (subst rep_iter.simps) (auto simp: consume_0)
next
  case (Cons c cs)
  show ?case
  proof (cases "P c")
    case False
    with Cons(2)[symmetric] have "f st = []" by (simp add: f)
    with Cons(2)[symmetric] False show ?thesis
      by (subst rep_iter.simps) (auto simp: consume_0)
  next
    case True
    let ?s1 = "consume 1 st"
    from Cons(2)[symmetric] True have fst: "f st = [?s1]" by (simp add: f)
    have r1: "rest ?s1 = cs" using Cons(2)[symmetric] by (simp add: consume_rest)
    have ne: "rest st \<noteq> []" using Cons(2)[symmetric] by simp
    let ?n1 = "length (takeWhile P cs)"
    have IH: "rep_iter f True (mn - 1) None ?s1 =
                map (\<lambda>k. consume k ?s1) (rev [mn - 1..<Suc ?n1])"
      using Cons(1)[of ?s1 "mn - 1"] r1 by simp
    have sh: "map (\<lambda>k. consume k ?s1) (rev [mn - 1..<Suc ?n1]) =
              map (\<lambda>k. consume k st) (rev [Suc (mn - 1)..<Suc (Suc ?n1)])"
    proof -
      have "map (\<lambda>k. consume k ?s1) (rev [mn - 1..<Suc ?n1]) =
            map (\<lambda>k. consume (Suc k) st) (rev [mn - 1..<Suc ?n1])"
        using consume_Suc[OF ne] by simp
      also have "\<dots> = map (\<lambda>k. consume k st) (rev (map Suc [mn - 1..<Suc ?n1]))"
        by (simp add: rev_map comp_def)
      finally show ?thesis by (simp only: upt_shift)
    qed
    have n: "length (takeWhile P (rest st)) = Suc ?n1"
      using Cons(2)[symmetric] True by simp
    have unfold: "rep_iter f True mn None st =
            rep_iter f True (mn - 1) None ?s1 @ (if mn = 0 then [st] else [])"
      using fst r1 Cons(2)[symmetric]
      by (subst rep_iter.simps) (simp add: Let_def)
    show ?thesis
    proof (cases "mn = 0")
      case True
      have "[0..<Suc (Suc ?n1)] = 0 # [Suc 0..<Suc (Suc ?n1)]"
        by (rule upt_conv_Cons) simp
      then have "rev [0..<Suc (Suc ?n1)] = rev [Suc 0..<Suc (Suc ?n1)] @ [0]" by simp
      with unfold IH sh True n show ?thesis by (simp add: consume_0)
    next
      case False
      with unfold IH sh n show ?thesis by simp
    qed
  qed
qed

lemma ms_Lit_single:
  "ms m (Lit [c]) (clear_caps [] s) =
     (case rest s of [] \<Rightarrow> [] | d # ds \<Rightarrow> if d = c then [consume 1 s] else [])"
  by (cases "rest s") (auto simp: clear_caps_def consume_def)

lemma ms_Class_single:
  "ms m (Class P) (clear_caps [] s) =
     (case rest s of [] \<Rightarrow> [] | d # ds \<Rightarrow> if P d then [consume 1 s] else [])"
  by (cases "rest s") (auto simp: clear_caps_def consume_def)

lemma ms_Rep_Lit:
  "ms m (Rep True mn None (Lit [c])) st =
     map (\<lambda>k. consume k st) (rev [mn..<Suc (length (takeWhile (\<lambda>d. d = c) (rest st)))])"
  using rep_iter_single[where f = "\<lambda>s. ms m (Lit [c]) (clear_caps [] s)" and P = "\<lambda>d. d = c",
      OF ms_Lit_single]
  by simp

lemma ms_Rep_Class:
  "ms m (Rep True mn None (Class P)) st =
     map (\<lambda>k. consume k st) (rev [mn..<Suc (length (takeWhile P (rest st)))])"
  using rep_iter_single[where f = "\<lambda>s. ms m (Class P) (clear_caps [] s)" and P = P,
      OF ms_Class_single]
  by simp

lemma rev_upt_hd: "a \<le> n \<Longrightarrow> rev [a..<Suc n] = n # rev [a..<n]"
  by simp

lemma consume_caps: "caps (consume n st) = caps st"
  by (simp add: consume_def)

lemma match_at_NL3:
  "match_at m (Rep True 3 None (Lit [NL])) p s =
     (let n = length (takeWhile (\<lambda>d. d = NL) s)
      in if 3 \<le> n
         then Some \<lparr>skipped = [], matched = take n s, groups = [],
                    after_prev = prev (consume n \<lparr>prev = p, rest = s, caps = []\<rparr>),
                    after = dropWhile (\<lambda>d. d = NL) s\<rparr>
         else None)"
proof -
  let ?n = "length (takeWhile (\<lambda>d. d = NL) s)"
  have nle: "?n \<le> length s" by (rule length_takeWhile_le)
  have dr: "drop ?n s = dropWhile (\<lambda>d. d = NL) s" by (rule dropWhile_eq_drop[symmetric])
  have "length (takeWhile (\<lambda>d. d = NL) s @ dropWhile (\<lambda>d. d = NL) s) = length s" by simp
  then have ln: "length s - length (dropWhile (\<lambda>d. d = NL) s) = ?n"
    by (simp only: length_append)
  show ?thesis
  proof (cases "3 \<le> ?n")
    case True
    then have "rev [3..<Suc ?n] = ?n # rev [3..<?n]" by (rule rev_upt_hd)
    with True nle dr ln show ?thesis
      unfolding match_at_def ms_Rep_Lit
      by (simp add: Let_def consume_rest consume_caps)
  next
    case False
    then have "[3..<Suc ?n] = []" by simp
    with False show ?thesis
      unfolding match_at_def ms_Rep_Lit
      by (simp add: Let_def)
  qed
qed

lemma collapse_short_run:
  "length (takeWhile (\<lambda>x. x = NL) s) < k \<Longrightarrow>
   collapse_newlines k s = takeWhile (\<lambda>x. x = NL) s @ collapse_newlines k (dropWhile (\<lambda>x. x = NL) s)"
  by (cases s) (auto simp: Let_def)

lemma replace_collapse:
  "re_replace_from m (Rep True 3 None (Lit [NL])) [RText [NL, NL]] p s = collapse_newlines 3 s"
proof (induction s arbitrary: p rule: length_induct)
  case (1 s)
  show ?case
  proof (cases s)
    case Nil
    then show ?thesis by (simp add: re_replace_from_Nil match_at_NL3)
  next
    case (Cons c cs)
    show ?thesis
    proof (cases "c = NL")
      case False
      with Cons "1.IH" show ?thesis
        by (simp add: re_replace_from_Cons match_at_NL3)
    next
      case True
      define n where "n = length (takeWhile (\<lambda>d. d = NL) s)"
      have n: "n = Suc (length (takeWhile (\<lambda>d. d = NL) cs))"
        using Cons True by (simp add: n_def)
      show ?thesis
      proof (cases "3 \<le> n")
        case big: True
        have len: "length (dropWhile (\<lambda>d. d = NL) cs) < length s"
          using Cons by (simp add: length_dropWhile_le less_Suc_eq_le)
        have "re_replace_from m (Rep True 3 None (Lit [NL])) [RText [NL, NL]] p s =
                [NL, NL] @ re_replace_from m (Rep True 3 None (Lit [NL])) [RText [NL, NL]]
                   (prev (consume n \<lparr>prev = p, rest = s, caps = []\<rparr>)) (dropWhile (\<lambda>d. d = NL) cs)"
          using Cons True big n
          by (simp add: re_replace_from_Cons match_at_NL3 Let_def n_def)
        also have "\<dots> = [NL, NL] @ collapse_newlines 3 (dropWhile (\<lambda>d. d = NL) cs)"
          using "1.IH" len by simp
        also have "\<dots> = collapse_newlines 3 s"
          using Cons True big n by (simp add: Let_def n_def)
        finally show ?thesis .
      next
        case small: False
        have "re_replace_from m (Rep True 3 None (Lit [NL])) [RText [NL, NL]] p s =
                NL # re_replace_from m (Rep True 3 None (Lit [NL])) [RText [NL, NL]] (Some NL) cs"
          using Cons True small n
          by (simp add: re_replace_from_Cons match_at_NL3 Let_def n_def)
        also have "\<dots> = NL # collapse_newlines 3 cs"
          using "1.IH" Cons by simp
        also have "\<dots> = NL # takeWhile (\<lambda>x. x = NL) cs @ collapse_newlines 3 (dropWhile (\<lambda>x. x = NL) cs)"
          using small n by (subst collapse_short_run) simp_all
        also have "\<dots> = collapse_newlines 3 s"
          using Cons True small n by (simp add: Let_def n_def)
        finally show ?thesis .
      qed
    qed
  qed
qed


section \<open>The matcher and the language of a pattern\<close>

text \<open>
  For a pattern without assertions and back-references, whose quantified parts cannot
  match the empty string, the matcher finds exactly the splits of the input whose
  first part is in the language of the pattern.
\<close>

fun regular :: "regex \<Rightarrow> bool" where
  "regular (Lit s) = True"
| "regular (Class P) = True"
| "regular (Seq a b) = (regular a \<and> regular b)"
| "regular (Alt a b) = (regular a \<and> regular b)"
| "regular (Rep g mn mx r) =
     (regular r \<and> 0 < minlen r \<and> (case mx of None \<Rightarrow> True | Some k \<Rightarrow> mn \<le> k))"
| "regular (Group n r) = regular r"
| "regular r = False"

fun lang_of :: "regex \<Rightarrow> jsstring set" where
  "lang_of (Lit s) = {s}"
| "lang_of (Class P) = {[c] | c. P c}"
| "lang_of (Seq a b) = {u @ v | u v. u \<in> lang_of a \<and> v \<in> lang_of b}"
| "lang_of (Alt a b) = lang_of a \<union> lang_of b"
| "lang_of (Rep g mn mx r) =
     {concat us | us. set us \<subseteq> lang_of r \<and> mn \<le> length us \<and>
                      (\<forall>k. mx = Some k \<longrightarrow> length us \<le> k)}"
| "lang_of (Group n r) = lang_of r"
| "lang_of r = {}"

lemma rep_iter_lang:
  "(\<And>s. rest ` set (f s) = {v. \<exists>u \<in> L. rest s = u @ v}) \<Longrightarrow> [] \<notin> L \<Longrightarrow>
   (\<forall>k. mx = Some k \<longrightarrow> mn \<le> k) \<Longrightarrow>
   rest ` set (rep_iter f greedy mn mx st) =
     {v. \<exists>us. set us \<subseteq> L \<and> mn \<le> length us \<and> (\<forall>k. mx = Some k \<longrightarrow> length us \<le> k) \<and>
              rest st = concat us @ v}"
proof (induction f greedy mn mx st rule: rep_iter.induct)
  case (1 f greedy mn mx st)
  note A = "1.prems"(1) and NE = "1.prems"(2) and B = "1.prems"(3)
  show ?case
  proof (cases "mx = Some 0")
    case True
    with B have "mn = 0" by simp
    with True show ?thesis by (subst rep_iter.simps) auto
  next
    case False
    have shorter: "length (rest s) < length (rest st)" if "s \<in> set (f st)" for s
    proof -
      from that have "rest s \<in> rest ` set (f st)" by blast
      then obtain u where "u \<in> L" "rest st = u @ rest s" unfolding A by blast
      with NE show ?thesis by (cases u) auto
    qed
    then have filt: "filter (\<lambda>st'. if mn = 0 then length (rest st') < length (rest st)
                                     else length (rest st') \<le> length (rest st)) (f st) = f st"
      by (auto intro!: filter_True simp: less_imp_le)
    have B': "\<forall>k. dec_max mx = Some k \<longrightarrow> mn - 1 \<le> k"
      using B False by (cases mx) auto
    have IH: "rest ` set (rep_iter f greedy (mn - 1) (dec_max mx) s) =
        {v. \<exists>us. set us \<subseteq> L \<and> mn - 1 \<le> length us \<and>
                 (\<forall>k. dec_max mx = Some k \<longrightarrow> length us \<le> k) \<and> rest s = concat us @ v}"
      if "s \<in> set (f st)" for s
      using "1.IH"[OF False _ A NE B', of s] that filt by simp
    have unfold: "set (rep_iter f greedy mn mx st) =
        (\<Union>s \<in> set (f st). set (rep_iter f greedy (mn - 1) (dec_max mx) s)) \<union>
        (if mn = 0 then {st} else {})"
      using False filt by (subst rep_iter.simps) (auto simp: Let_def)
    show ?thesis
    proof (intro set_eqI iffI)
      fix v assume "v \<in> rest ` set (rep_iter f greedy mn mx st)"
      then consider "mn = 0" "v = rest st"
        | s where "s \<in> set (f st)" "v \<in> rest ` set (rep_iter f greedy (mn - 1) (dec_max mx) s)"
        unfolding unfold by (auto split: if_splits)
      then show "v \<in> {v. \<exists>us. set us \<subseteq> L \<and> mn \<le> length us \<and>
                     (\<forall>k. mx = Some k \<longrightarrow> length us \<le> k) \<and> rest st = concat us @ v}"
      proof cases
        case 1
        then have "set [] \<subseteq> L \<and> mn \<le> length ([]::jsstring list) \<and>
                     (\<forall>k. mx = Some k \<longrightarrow> length ([]::jsstring list) \<le> k) \<and> rest st = concat [] @ v"
          by simp
        then show ?thesis by blast
      next
        case 2
        from 2(2) obtain us where us: "set us \<subseteq> L" "mn - 1 \<le> length us"
          "\<forall>k. dec_max mx = Some k \<longrightarrow> length us \<le> k" "rest s = concat us @ v"
          unfolding IH[OF 2(1)] by blast
        from 2(1) have "rest s \<in> rest ` set (f st)" by blast
        then obtain u where u: "u \<in> L" "rest st = u @ rest s" unfolding A by blast
        have "set (u # us) \<subseteq> L \<and> mn \<le> length (u # us) \<and>
                (\<forall>k. mx = Some k \<longrightarrow> length (u # us) \<le> k) \<and> rest st = concat (u # us) @ v"
          using us u False by (cases mx) auto
        then show ?thesis by blast
      qed
    next
      fix v assume "v \<in> {v. \<exists>us. set us \<subseteq> L \<and> mn \<le> length us \<and>
                     (\<forall>k. mx = Some k \<longrightarrow> length us \<le> k) \<and> rest st = concat us @ v}"
      then obtain us where us: "set us \<subseteq> L" "mn \<le> length us"
          "\<forall>k. mx = Some k \<longrightarrow> length us \<le> k" "rest st = concat us @ v" by blast
      show "v \<in> rest ` set (rep_iter f greedy mn mx st)"
      proof (cases us)
        case Nil
        with us show ?thesis unfolding unfold by auto
      next
        case (Cons u us')
        with us have "u \<in> L" "rest st = u @ (concat us' @ v)" by auto
        then have "concat us' @ v \<in> rest ` set (f st)" unfolding A by blast
        then obtain s where s: "s \<in> set (f st)" "rest s = concat us' @ v" by auto
        have "set us' \<subseteq> L \<and> mn - 1 \<le> length us' \<and>
                 (\<forall>k. dec_max mx = Some k \<longrightarrow> length us' \<le> k) \<and> rest s = concat us' @ v"
          using us Cons s(2) by (cases mx) auto
        then have "v \<in> rest ` set (rep_iter f greedy (mn - 1) (dec_max mx) s)"
          unfolding IH[OF s(1)] by blast
        then obtain x where x: "x \<in> set (rep_iter f greedy (mn - 1) (dec_max mx) s)" "v = rest x"
          by blast
        from x(1) s(1) have "x \<in> set (rep_iter f greedy mn mx st)" unfolding unfold by blast
        with x(2) show ?thesis by blast
      qed
    qed
  qed
qed

lemma lang_nonempty: "regular r \<Longrightarrow> 0 < minlen r \<Longrightarrow> [] \<notin> lang_of r"
proof (induction r)
  case (Rep g mn mx r)
  then have ne: "[] \<notin> lang_of r" by (auto split: option.splits)
  from Rep.prems have "0 < mn" by (auto split: option.splits)
  show ?case
  proof
    assume "[] \<in> lang_of (Rep g mn mx r)"
    then obtain us where us: "set us \<subseteq> lang_of r" "mn \<le> length us" "concat us = []" by auto
    with \<open>0 < mn\<close> obtain u us' where "us = u # us'" by (cases us) auto
    with us ne show False by auto
  qed
qed auto

theorem ms_lang:
  "regular r \<Longrightarrow> rest ` set (ms m r st) = {v. \<exists>u \<in> lang_of r. rest st = u @ v}"
proof (induction r arbitrary: st)
  case (Lit s)
  show ?case
    by (auto simp: consume_rest startsWith_prefix prefix_def)
next
  case (Class P)
  show ?case
    by (cases "rest st") (auto simp: consume_rest)
next
  case (Seq a b)
  then have a: "\<And>st. rest ` set (ms m a st) = {v. \<exists>u \<in> lang_of a. rest st = u @ v}"
    and b: "\<And>st. rest ` set (ms m b st) = {v. \<exists>u \<in> lang_of b. rest st = u @ v}" by auto
  show ?case
  proof (intro set_eqI iffI)
    fix v assume "v \<in> rest ` set (ms m (Seq a b) st)"
    then obtain s1 where s1: "s1 \<in> set (ms m a st)" "v \<in> rest ` set (ms m b s1)" by auto
    from s1(2) obtain u2 where u2: "u2 \<in> lang_of b" "rest s1 = u2 @ v" unfolding b by blast
    from s1(1) have "rest s1 \<in> rest ` set (ms m a st)" by blast
    then obtain u1 where u1: "u1 \<in> lang_of a" "rest st = u1 @ rest s1" unfolding a by blast
    from u1 u2 have "u1 @ u2 \<in> lang_of (Seq a b)" "rest st = (u1 @ u2) @ v" by auto
    then show "v \<in> {v. \<exists>u \<in> lang_of (Seq a b). rest st = u @ v}" by blast
  next
    fix v assume "v \<in> {v. \<exists>u \<in> lang_of (Seq a b). rest st = u @ v}"
    then obtain u1 u2 where u: "u1 \<in> lang_of a" "u2 \<in> lang_of b" "rest st = u1 @ u2 @ v" by auto
    then have "u2 @ v \<in> rest ` set (ms m a st)" unfolding a by blast
    then obtain s1 where s1: "s1 \<in> set (ms m a st)" "rest s1 = u2 @ v" by auto
    with u(2) have "v \<in> rest ` set (ms m b s1)" unfolding b by blast
    with s1(1) show "v \<in> rest ` set (ms m (Seq a b) st)" by auto
  qed
next
  case (Alt a b)
  then have a: "rest ` set (ms m a st) = {v. \<exists>u \<in> lang_of a. rest st = u @ v}"
    and b: "rest ` set (ms m b st) = {v. \<exists>u \<in> lang_of b. rest st = u @ v}" by auto
  have "rest ` set (ms m (Alt a b) st) = rest ` set (ms m a st) \<union> rest ` set (ms m b st)"
    by (simp add: image_Un)
  then show ?case unfolding a b by auto
next
  case (Rep g mn mx r)
  then have reg: "regular r" and pos: "0 < minlen r" and B: "\<forall>k. mx = Some k \<longrightarrow> mn \<le> k"
    by (auto split: option.splits)
  have A: "\<And>s. rest ` set (ms m r (clear_caps (group_ids r) s)) = {v. \<exists>u \<in> lang_of r. rest s = u @ v}"
    using Rep.IH[OF reg] by (simp add: clear_caps_def)
  from rep_iter_lang[where f = "\<lambda>s. ms m r (clear_caps (group_ids r) s)" and L = "lang_of r",
      OF A lang_nonempty[OF reg pos] B]
  show ?case by auto
next
  case (Group n r)
  then have "rest ` set (ms m r st) = {v. \<exists>u \<in> lang_of r. rest st = u @ v}" by simp
  moreover have "rest ` set (ms m (Group n r) st) = rest ` set (ms m r st)"
    by (auto simp: image_iff) 
  ultimately show ?case by simp
qed simp_all

section \<open>The table rewriter\<close>

subsection \<open>The separator pattern\<close>

lemma ms_exists_lang:
  assumes "regular r"
  shows "(\<exists>s' \<in> set (ms m r st). Q (rest s')) \<longleftrightarrow>
         (\<exists>u v. u \<in> lang_of r \<and> rest st = u @ v \<and> Q v)"
proof -
  have "(\<exists>s' \<in> set (ms m r st). Q (rest s')) \<longleftrightarrow> (\<exists>v \<in> rest ` set (ms m r st). Q v)"
    by blast
  also have "\<dots> \<longleftrightarrow> (\<exists>u v. u \<in> lang_of r \<and> rest st = u @ v \<and> Q v)"
    unfolding ms_lang[OF assms] by blast
  finally show ?thesis .
qed

lemma re_exec_Bol_later: "re_exec False (Seq Bol r) (Some c) s = None"
  by (induction s arbitrary: c) (simp_all add: match_at_def)

lemma re_test_Bol:
  "re_test False (Seq Bol r) s = (ms False r \<lparr>prev = None, rest = s, caps = []\<rparr> \<noteq> [])"
  by (cases s) (auto simp: re_test_def match_at_def re_exec_Bol_later split: list.splits)

text \<open>The quantified group of the separator pattern, \<^verbatim>\<open>(\|[\s\-:]+)+\<close>.\<close>

definition sep_groups :: regex where
  "sep_groups = plus_re (Group 1 (Seq (Lit [PIPE]) (plus_re (Class isSepChar))))"

lemma TABLE_SEPARATOR_RE_eq:
  "TABLE_SEPARATOR_RE = Seq Bol (Seq sep_groups (Seq (Lit [PIPE]) (Seq (star_re (Class isSpace)) Eol)))"
  by (simp add: TABLE_SEPARATOR_RE_def sep_groups_def)

lemma regular_sep: "regular sep_groups" "regular (star_re (Class isSpace))" "regular (Lit [PIPE])"
  by (simp_all add: sep_groups_def plus_re_def star_re_def)

lemma ms_nonempty: "(xs \<noteq> []) = (\<exists>x \<in> set xs. True)"
  by (cases xs) auto

lemma re_test_separator:
  "re_test False TABLE_SEPARATOR_RE l \<longleftrightarrow>
     (\<exists>g w. g \<in> lang_of sep_groups \<and> w \<in> lang_of (star_re (Class isSpace)) \<and> l = g @ [PIPE] @ w)"
proof -
  let ?st = "\<lparr>prev = None, rest = l, caps = []\<rparr>"
  have eol: "\<And>s. (ms False Eol s \<noteq> []) = (rest s = [])"
    by (auto split: list.splits)
  have "re_test False TABLE_SEPARATOR_RE l \<longleftrightarrow>
        (\<exists>s1 \<in> set (ms False sep_groups ?st). \<exists>s2 \<in> set (ms False (Lit [PIPE]) s1).
           \<exists>s3 \<in> set (ms False (star_re (Class isSpace)) s2). rest s3 = [])"
    unfolding TABLE_SEPARATOR_RE_eq re_test_Bol
    by (subst ms_nonempty) (auto simp del: ms.simps(1,5) simp add: eol[symmetric] ms_nonempty)
  also have "\<dots> \<longleftrightarrow>
        (\<exists>s1 \<in> set (ms False sep_groups ?st). \<exists>s2 \<in> set (ms False (Lit [PIPE]) s1).
           \<exists>w v. w \<in> lang_of (star_re (Class isSpace)) \<and> rest s2 = w @ v \<and> v = [])"
    by (simp only: ms_exists_lang[OF regular_sep(2), where Q = "\<lambda>v. v = []"])
  also have "\<dots> \<longleftrightarrow>
        (\<exists>s1 \<in> set (ms False sep_groups ?st).
           \<exists>p v. p \<in> lang_of (Lit [PIPE]) \<and> rest s1 = p @ v \<and>
                 (\<exists>w v'. w \<in> lang_of (star_re (Class isSpace)) \<and> v = w @ v' \<and> v' = []))"
    by (simp only: ms_exists_lang[OF regular_sep(3),
          where Q = "\<lambda>v. \<exists>w v'. w \<in> lang_of (star_re (Class isSpace)) \<and> v = w @ v' \<and> v' = []"])
  also have "\<dots> \<longleftrightarrow>
        (\<exists>g v0. g \<in> lang_of sep_groups \<and> rest ?st = g @ v0 \<and>
           (\<exists>p v. p \<in> lang_of (Lit [PIPE]) \<and> v0 = p @ v \<and>
                 (\<exists>w v'. w \<in> lang_of (star_re (Class isSpace)) \<and> v = w @ v' \<and> v' = [])))"
    by (simp only: ms_exists_lang[OF regular_sep(1),
          where Q = "\<lambda>v0. \<exists>p v. p \<in> lang_of (Lit [PIPE]) \<and> v0 = p @ v \<and>
                 (\<exists>w v'. w \<in> lang_of (star_re (Class isSpace)) \<and> v = w @ v' \<and> v' = [])"])
  also have "\<dots> \<longleftrightarrow>
     (\<exists>g w. g \<in> lang_of sep_groups \<and> w \<in> lang_of (star_re (Class isSpace)) \<and> l = g @ [PIPE] @ w)"
    by auto
  finally show ?thesis .
qed

lemma lang_star_space: "w \<in> lang_of (star_re (Class isSpace)) \<Longrightarrow> list_all isSpace w"
  by (fastforce simp: star_re_def list_all_iff)

lemma lang_star_Nil: "[] \<in> lang_of (star_re r)"
proof -
  have "set [] \<subseteq> lang_of r \<and> concat ([]::jsstring list) = []" by simp
  then show ?thesis unfolding star_re_def by (auto intro!: exI[of _ "[]"])
qed

lemma lang_sep_groups_hd: "g \<in> lang_of sep_groups \<Longrightarrow> g \<noteq> [] \<and> hd g = PIPE"
proof -
  assume "g \<in> lang_of sep_groups"
  then obtain us where us: "\<forall>u \<in> set us. \<exists>v. u = PIPE # v" "1 \<le> length us" "g = concat us"
    by (fastforce simp: sep_groups_def plus_re_def)
  then obtain u us' where c: "us = u # us'" by (cases us) auto
  with us(1) obtain v where "u = PIPE # v" by auto
  with c us(3) show ?thesis by simp
qed

lemma not_space_PIPE: "\<not> isSpace PIPE"
  by (simp add: isSpace_def PIPE_def)

lemma trimEnd_append_ws: "list_all isSpace w \<Longrightarrow> trimEnd (x @ w) = trimEnd x"
proof -
  assume "list_all isSpace w"
  then have "dropWhile isSpace (rev w @ rev x) = dropWhile isSpace (rev x)"
    by (intro dropWhile_append2) (simp add: list_all_iff)
  then show ?thesis by (simp add: trimEnd_def)
qed

lemma separator_trim:
  assumes "re_test False TABLE_SEPARATOR_RE l"
  shows "re_test False TABLE_SEPARATOR_RE (trim l)"
proof -
  from assms obtain g w where gw: "g \<in> lang_of sep_groups" "w \<in> lang_of (star_re (Class isSpace))"
      "l = g @ [PIPE] @ w"
    unfolding re_test_separator by blast
  from lang_sep_groups_hd[OF gw(1)] have g: "g \<noteq> []" "hd g = PIPE" by auto
  with gw(3) have "l \<noteq> []" "hd l = PIPE" by auto
  then have ts: "trimStart l = l" using not_space_PIPE by (simp add: trimStart_id)
  have "trimEnd l = trimEnd ((g @ [PIPE]) @ w)" using gw(3) by simp
  also have "\<dots> = trimEnd (g @ [PIPE])"
    using lang_star_space[OF gw(2)] by (rule trimEnd_append_ws)
  also have "\<dots> = g @ [PIPE]" using not_space_PIPE by (intro trimEnd_id) auto
  finally have "trim l = g @ [PIPE] @ []" using ts by (simp add: trim_def)
  with gw(1) lang_star_Nil[of "Class isSpace"] show ?thesis
    unfolding re_test_separator by blast
qed

subsection \<open>Splitting, joining, trimming\<close>

lemma includes_str_char: "includes_str s [c] = (c \<in> set s)"
  by (induction s) auto

lemma split_from_Cons:
  "split_from [c] cur (a # s) =
     (if a = c then rev cur # split_from [c] [] s else split_from [c] (a # cur) s)"
  by simp

lemma split_from_no_sep:
  "c \<notin> set cur \<Longrightarrow> \<forall>x \<in> set (split_from [c] cur s). c \<notin> set x"
proof (induction s arbitrary: cur)
  case Nil
  then show ?case by simp
next
  case (Cons a s)
  show ?case
  proof (cases "a = c")
    case True
    with Cons.IH[of "[]"] Cons.prems show ?thesis by (simp only: split_from_Cons) simp
  next
    case False
    with Cons.IH[of "a # cur"] Cons.prems show ?thesis by (simp only: split_from_Cons) simp
  qed
qed

lemma split_from_subset:
  "\<forall>x \<in> set (split_from [c] cur s). set x \<subseteq> set cur \<union> set s"
proof (induction s arbitrary: cur)
  case Nil
  then show ?case by simp
next
  case (Cons a s)
  show ?case
  proof (cases "a = c")
    case True
    with Cons.IH[of "[]"] show ?thesis by (simp only: split_from_Cons) auto
  next
    case False
    with Cons.IH[of "a # cur"] show ?thesis by (simp only: split_from_Cons) auto
  qed
qed

lemma split_str_no_sep: "x \<in> set (split_str s [c]) \<Longrightarrow> c \<notin> set x"
  using split_from_no_sep[of c "[]" s] by (simp add: split_str_def)

lemma split_str_subset: "x \<in> set (split_str s [c]) \<Longrightarrow> set x \<subseteq> set s"
  using split_from_subset[of c "[]" s] by (simp add: split_str_def)

lemma split_from_plain: "c \<notin> set x \<Longrightarrow> split_from [c] cur x = [rev cur @ x]"
  by (induction x arbitrary: cur) auto

lemma split_from_at_sep:
  "c \<notin> set x \<Longrightarrow> split_from [c] cur (x @ c # t) = (rev cur @ x) # split_from [c] [] t"
  by (induction x arbitrary: cur) auto

lemma split_join:
  "xs \<noteq> [] \<Longrightarrow> \<forall>x \<in> set xs. c \<notin> set x \<Longrightarrow> split_str (join xs [c]) [c] = xs"
proof (induction xs "[c]" rule: join.induct)
  case 1
  then show ?case by simp
next
  case (2 x)
  then show ?case by (simp add: split_str_def split_from_plain)
next
  case (3 x y ys)
  then have "split_from [c] [] (join (y # ys) [c]) = y # ys" by (simp add: split_str_def)
  with 3 show ?case by (simp add: split_str_def split_from_at_sep)
qed

lemma set_join: "set (join xs sep) \<subseteq> (\<Union>x \<in> set xs. set x) \<union> set sep"
  by (induction xs sep rule: join.induct) auto

lemma set_trimEnd: "set (trimEnd s) \<subseteq> set s"
  using trimEnd_parts[of s] by (metis Un_upper1 set_append)

lemma set_trim: "set (trim s) \<subseteq> set s"
  using trim_parts[of s] by (metis Un_upper1 Un_upper2 set_append subset_trans)

lemma trim_keeps: "c \<in> set s \<Longrightarrow> \<not> isSpace c \<Longrightarrow> c \<in> set (trim s)"
proof -
  assume a: "c \<in> set s" "\<not> isSpace c"
  obtain l r where lr: "s = l @ trim s @ r" "list_all isSpace l" "list_all isSpace r"
    using trim_parts by blast
  from a(1) have "c \<in> set (l @ trim s @ r)" using lr(1) by simp
  with a(2) lr(2,3) show ?thesis by (auto simp: list_all_iff)
qed

lemma re_replace_subset: "set (re_replace m r [] s) \<subseteq> set s"
proof (cases "re_exec m r None s")
  case None
  then show ?thesis by (simp add: re_replace_def)
next
  case (Some mt)
  from re_exec_parts[OF Some] have "set (skipped mt @ after mt) \<subseteq> set s"
    by (metis Un_mono set_append subset_refl Un_upper2)
  with Some show ?thesis by (simp add: re_replace_def)
qed

lemma parseRow_chars: "cell \<in> set (parseRow line) \<Longrightarrow> set cell \<subseteq> set line - {PIPE}"
proof -
  assume "cell \<in> set (parseRow line)"
  then obtain x where x: "cell = trim x"
    "x \<in> set (split_str (re_replace False (Seq (Lit [PIPE]) Eol) []
                (re_replace False (Seq Bol (Lit [PIPE])) [] (trim line))) [PIPE])"
    by (auto simp: parseRow_def Let_def)
  from split_str_no_sep[OF x(2)] have "PIPE \<notin> set x" .
  moreover from split_str_subset[OF x(2)] have "set x \<subseteq> set line"
    using re_replace_subset set_trim by (meson subset_trans)
  ultimately show ?thesis using x(1) set_trim[of x] by auto
qed

subsection \<open>Detection and conversion\<close>

text \<open>
  The conditions under which a paragraph is a table, as the specification lists them:
  at least 3 lines, a pipe in the first line, the line at index 1 matching the
  separator pattern, and a pipe in at least one later line.
\<close>

definition is_table :: "jsstring \<Rightarrow> bool" where
  "is_table par =
     (let lines = split_str par [NL]
      in 3 \<le> length lines \<and>
         includes_str (lines ! 0) [PIPE] \<and>
         re_test False TABLE_SEPARATOR_RE (lines ! 1) \<and>
         list_ex (\<lambda>l. includes_str l [PIPE]) (drop 2 lines))"

lemma findIndex_from_ge: "findIndex_from i P xs = -1 \<or> int i \<le> findIndex_from i P xs"
proof (induction xs arbitrary: i)
  case Nil
  then show ?case by simp
next
  case (Cons x xs)
  from Cons[of "Suc i"] show ?case by auto
qed

lemma findIndex_separator:
  assumes "2 \<le> length xs"
  shows "(findIndex (\<lambda>l i. i > 0 \<and> T l) xs = 1) = T (xs ! 1)"
proof -
  from assms obtain x y ys where xs: "xs = x # y # ys"
    by (cases xs; cases "tl xs") auto
  from findIndex_from_ge[of 2 "\<lambda>l i. i > 0 \<and> T l" ys]
  have "findIndex_from 2 (\<lambda>l i. i > 0 \<and> T l) ys \<noteq> 1" by auto
  then show ?thesis by (simp add: xs findIndex_def numeral_2_eq_2)
qed

lemma list_ex_filter: "list_ex P xs = (filter P xs \<noteq> [])"
  by (induction xs) auto

lemma split_str_Nil: "split_str [] sep = [[]]"
  by (simp add: split_str_def)

lemma processBlock_cases:
  "processBlock par = (if is_table (trim par) then tableToBullets (trim par) else trim par)"
proof (cases "trim par = []")
  case True
  then show ?thesis by (simp add: processBlock_def is_table_def split_str_Nil)
next
  case False
  show ?thesis
  proof (cases "3 \<le> length (split_str (trim par) [NL])")
    case short: False
    with False show ?thesis by (simp add: processBlock_def is_table_def Let_def)
  next
    case True
    then have "2 \<le> length (split_str (trim par) [NL])" by simp
    from findIndex_separator[OF this, of "re_test False TABLE_SEPARATOR_RE"] False True
    show ?thesis
      by (simp add: processBlock_def is_table_def Let_def list_ex_filter)
  qed
qed

lemma includes_trim: "includes_str (trim l) [PIPE] = includes_str l [PIPE]"
  using trim_keeps[of PIPE l] set_trim[of l] not_space_PIPE
  by (auto simp: includes_str_char)

lemma filter_map_trim:
  "filter (\<lambda>l. includes_str l [PIPE]) (map trim xs) =
   map trim (filter (\<lambda>l. includes_str l [PIPE]) xs)"
  by (induction xs) (auto simp: includes_trim)

lemma tableToBullets_table:
  assumes "is_table t"
  shows "tableToBullets t =
           join (map (bullet_row (parseRow (trim (split_str t [NL] ! 0))))
                  (map trim (filter (\<lambda>l. includes_str l [PIPE]) (drop 2 (split_str t [NL])))))
             [NL]"
proof -
  let ?lines = "split_str t [NL]"
  from assms have len: "3 \<le> length ?lines" and first: "includes_str (?lines ! 0) [PIPE]"
    and sep: "re_test False TABLE_SEPARATOR_RE (?lines ! 1)"
    and data: "filter (\<lambda>l. includes_str l [PIPE]) (drop 2 ?lines) \<noteq> []"
    by (simp_all add: is_table_def Let_def list_ex_filter)
  have len': "\<not> length (map trim ?lines) < 3" using len by simp
  have hd0: "map trim ?lines ! 0 = trim (?lines ! 0)" using len by (intro nth_map) auto
  have hd1: "map trim ?lines ! 1 = trim (?lines ! 1)" using len by (intro nth_map) auto
  have first': "includes_str (map trim ?lines ! 0) [PIPE]"
    using first unfolding hd0 by (simp only: includes_trim)
  have "re_test False TABLE_SEPARATOR_RE (map trim ?lines ! 1)"
    using sep unfolding hd1 by (rule separator_trim)
  then have idx: "findIndex (\<lambda>l i. i > 0 \<and> re_test False TABLE_SEPARATOR_RE l) (map trim ?lines) = 1"
    using len by (subst findIndex_separator) simp_all
  have data': "filter (\<lambda>l. includes_str l [PIPE]) (drop 2 (map trim ?lines)) =
                 map trim (filter (\<lambda>l. includes_str l [PIPE]) (drop 2 ?lines))"
    by (simp add: drop_map filter_map_trim)
  show ?thesis
    unfolding tableToBullets_def Let_def
    using len' first' idx data data' hd0 by simp
qed

lemma set_str_colon: "set (str '': '') = {58, 32}"
  by (simp add: str_def)

lemma bullet_row_chars:
  "set (bullet_row hs row) \<subseteq>
     {BULLET, SP, MIDDOT, 58, EMDASH} \<union> (\<Union>h \<in> set hs. set h) \<union> (set row - {PIPE})"
proof -
  let ?display = "map (\<lambda>c. if c = [] then [EMDASH] else c) (parseRow row)"
  let ?ok = "{BULLET, SP, MIDDOT, 58, EMDASH} \<union> (\<Union>h \<in> set hs. set h) \<union> (set row - {PIPE})"
  have d: "set d \<subseteq> ?ok" if "d \<in> set ?display" for d
    using that parseRow_chars[of _ row] by auto
  have h: "set h \<subseteq> ?ok" if "h \<in> set hs" for h
    using that by auto
  have pair: "set (h @ str '': '' @ d) \<subseteq> ?ok" if "(h, d) \<in> set (zip hs ?display)" for h d
  proof -
    from that have "h \<in> set hs" "d \<in> set ?display"
      by (auto dest: set_zip_leftD set_zip_rightD)
    with h[of h] d[of d] show ?thesis by (auto simp: set_str_colon SP_def)
  qed
  have j1: "set (join (map (\<lambda>(h, d). h @ str '': '' @ d) (zip hs ?display)) [SP, MIDDOT, SP]) \<subseteq> ?ok"
  proof -
    let ?items = "map (\<lambda>(h, d). h @ str '': '' @ d) (zip hs ?display)"
    have a: "(\<Union>x \<in> set ?items. set x) \<subseteq> ?ok"
    proof (rule UN_least)
      fix x assume "x \<in> set ?items"
      then obtain h d where hd: "(h, d) \<in> set (zip hs ?display)" "x = h @ str '': '' @ d"
        by auto
      from pair[OF hd(1)] hd(2) show "set x \<subseteq> ?ok" by simp
    qed
    have b: "set [SP, MIDDOT, SP] \<subseteq> ?ok" by simp
    have "set (join ?items [SP, MIDDOT, SP]) \<subseteq> (\<Union>x \<in> set ?items. set x) \<union> set [SP, MIDDOT, SP]"
      by (rule set_join)
    also have "\<dots> \<subseteq> ?ok" using a b by (rule Un_least)
    finally show ?thesis .
  qed
  have j2: "set (join ?display [SP, MIDDOT, SP]) \<subseteq> ?ok"
  proof -
    have a: "(\<Union>x \<in> set ?display. set x) \<subseteq> ?ok"
    proof (rule UN_least)
      fix x assume "x \<in> set ?display"
      then show "set x \<subseteq> ?ok" by (rule d)
    qed
    have b: "set [SP, MIDDOT, SP] \<subseteq> ?ok" by simp
    have "set (join ?display [SP, MIDDOT, SP]) \<subseteq> (\<Union>x \<in> set ?display. set x) \<union> set [SP, MIDDOT, SP]"
      by (rule set_join)
    also have "\<dots> \<subseteq> ?ok" using a b by (rule Un_least)
    finally show ?thesis .
  qed
  have start: "set [BULLET, SP] \<subseteq> ?ok" by simp
  show ?thesis
  proof (cases "length hs = length ?display")
    case True
    then have "bullet_row hs row =
        [BULLET, SP] @ join (map (\<lambda>(h, d). h @ str '': '' @ d) (zip hs ?display)) [SP, MIDDOT, SP]"
      by (simp add: bullet_row_def Let_def)
    with start j1 show ?thesis by (simp only: set_append Un_least)
  next
    case False
    then have "bullet_row hs row = [BULLET, SP] @ join ?display [SP, MIDDOT, SP]"
      by (simp add: bullet_row_def Let_def)
    with start j2 show ?thesis by (simp only: set_append Un_least)
  qed
qed

lemma bullet_row_start: "startsWith (bullet_row hs row) [BULLET, SP]"
  by (simp add: bullet_row_def Let_def)

lemma special_chars:
  "PIPE \<notin> {BULLET, SP, MIDDOT, 58, EMDASH}" "NL \<notin> {BULLET, SP, MIDDOT, 58, EMDASH}" "PIPE \<noteq> NL"
  by (simp_all add: PIPE_def NL_def BULLET_def SP_def MIDDOT_def EMDASH_def)


section \<open>The repository's tests, on the model\<close>

text \<open>
  The inputs of \<^verbatim>\<open>test.mjs\<close> and \<^verbatim>\<open>test-proxy.mjs\<close> that fit in one chunk, with the
  results the model computes for them; each satisfies the assertions of its test.
\<close>

definition test_input_2 :: jsstring where
  "test_input_2 = str ''text before'' @ [NL] @ str ''```'' @ [NL] @ str ''| A | B |'' @ [NL] @
     str ''|---|---|'' @ [NL] @ str ''| 1 | 2 |'' @ [NL] @ str ''```'' @ [NL] @ str ''text after''"

definition plain_no_split :: options where
  "plain_no_split =
     \<lparr>opt_style = None, opt_toHtml = None, opt_maxChunkLength = None, opt_split = Some False\<rparr>"

definition html_no_split :: options where
  "html_no_split =
     \<lparr>opt_style = Some (str ''telegramHtml''), opt_toHtml = None, opt_maxChunkLength = None,
      opt_split = Some False\<rparr>"

lemma test_2_fenced_table:
  "preprocess (JString test_input_2) (OptObject plain_no_split) =
     Some (Inr \<lparr>chunks = [str ''text before'' @ [NL] @ str ''```'' @ [NL] @ str ''| A | B |'' @ [NL] @
                       str ''|---|---|'' @ [NL] @ str ''| 1 | 2 |'' @ [NL, NL] @ str ''```'' @
                       [NL, NL] @ str ''text after''],
           parseMode = None\<rparr>)"
  by code_simp

lemma test_5_no_italic:
  "preprocess (JString (str ''foo_bar_baz and another_thing_here'')) (OptObject html_no_split) =
     Some (Inr \<lparr>chunks = [str ''foo_bar_baz and another_thing_here''],
           parseMode = Some (str ''HTML'')\<rparr>)"
  by code_simp

lemma test_6_blank_cell:
  "preprocess (JString (str ''| A | B | C |'' @ [NL] @ str ''|---|---|---|'' @ [NL] @
                        str ''| 1 |  | 3 |'')) (OptObject plain_no_split) =
     Some (Inr \<lparr>chunks = [[BULLET, SP] @ str ''A: 1'' @ [SP, MIDDOT, SP] @ str ''B: '' @ [EMDASH] @
                       [SP, MIDDOT, SP] @ str ''C: 3''],
           parseMode = None\<rparr>)"
  by code_simp

lemma test_7_not_a_table:
  "preprocess (JString (str ''some log line | with pipes'' @ [NL] @ str ''another | line'' @ [NL] @
                        str ''no separator here'')) (OptObject plain_no_split) =
     Some (Inr \<lparr>chunks = [str ''some log line | with pipes'' @ [NL] @ str ''another | line'' @ [NL] @
                       str ''no separator here''],
           parseMode = None\<rparr>)"
  by code_simp

lemma test_8_fence_as_html:
  "preprocess (JString (str ''Hello'' @ [NL] @ str ''```'' @ [NL] @ str ''code here'' @ [NL] @
                        str ''```'' @ [NL] @ str ''World'')) (OptObject html_no_split) =
     Some (Inr \<lparr>chunks = [str ''Hello'' @ [NL] @ str ''<pre><code>code here'' @ [NL, NL] @
                       str ''</code></pre>'' @ [NL] @ str ''World''],
           parseMode = Some (str ''HTML'')\<rparr>)"
  by code_simp

lemma proxy_test_1_table:
  "sendMessage default_proxy_options mock_client 0 (JNumber 123)
     (JString (str ''| Name | Country |'' @ [NL] @ str ''|---|---|'' @ [NL] @
               str ''| Toyota | Japan |'' @ [NL] @ str ''| BMW | Germany |'')) [] =
     Some \<lparr>returned = Inr [1], client_state = 1,
           sent = [\<lparr>call_chatId = JNumber 123,
                    call_text = JString ([BULLET, SP] @ str ''Name: Toyota'' @ [SP, MIDDOT, SP] @
                                         str ''Country: Japan'' @ [NL] @
                                         [BULLET, SP] @ str ''Name: BMW'' @ [SP, MIDDOT, SP] @
                                         str ''Country: Germany''),
                    call_options = []\<rparr>]\<rparr>"
  by code_simp

lemma proxy_test_4_html:
  "sendMessage (default_proxy_options\<lparr>po_style := Some (str ''telegramHtml'')\<rparr>) mock_client 0
     (JNumber 101) (JString (str ''**Bold text** and `code`'')) [] =
     Some \<lparr>returned = Inr [1], client_state = 1,
           sent = [\<lparr>call_chatId = JNumber 101,
                    call_text = JString (str ''<b>Bold text</b> and <code>code</code>''),
                    call_options = [(''parse_mode'', JString (str ''HTML''))]\<rparr>]\<rparr>"
  by code_simp

lemma proxy_test_5_disabled:
  "sendMessage (default_proxy_options\<lparr>po_enabled := False\<rparr>) mock_client 0 (JNumber 202)
     (JString (str ''| A | B |'' @ [NL] @ str ''|---|---|'' @ [NL] @ str ''| 1 | 2 |'')) [] =
     Some \<lparr>returned = Inr [1], client_state = 1,
           sent = [\<lparr>call_chatId = JNumber 202,
                    call_text = JString (str ''| A | B |'' @ [NL] @ str ''|---|---|'' @ [NL] @
                                         str ''| 1 | 2 |''),
                    call_options = []\<rparr>]\<rparr>"
  by code_simp

lemma proxy_test_7_caller_parse_mode:
  "sendMessage (default_proxy_options\<lparr>po_style := Some (str ''telegramHtml'')\<rparr>) mock_client 0
     (JNumber 404) (JString (str ''some text'')) [(''parse_mode'', JString (str ''MarkdownV2''))] =
     Some \<lparr>returned = Inr [1], client_state = 1,
           sent = [\<lparr>call_chatId = JNumber 404, call_text = JString (str ''some text''),
                    call_options = [(''parse_mode'', JString (str ''MarkdownV2''))]\<rparr>]\<rparr>"
  by code_simp

text \<open>
  In HTML style the plain restoration comes first, and its space before the language
  tag keeps \<open>fence_re\<close> from recognising the block again: a fenced block with a
  language tag is not rendered as \<^verbatim>\<open><pre><code>\<close>.
\<close>

lemma language_tag_breaks_html_fence:
  "preprocess (JString (str ''```py'' @ [NL] @ str ''a<b'' @ [NL] @ str ''```'')) (OptObject html_no_split) =
     Some (Inr \<lparr>chunks = [str ''``<code> py'' @ [NL] @ str ''a&lt;b'' @ [NL, NL] @ str ''</code>``'' @ [NL]],
           parseMode = Some (str ''HTML'')\<rparr>)"
  by code_simp

section \<open>The claims\<close>

text \<open>
  C1. The claim: no chunk boundary falls strictly inside an HTML entity reference, a tag
  or a \<^verbatim>\<open><pre>\<close> element; when such a unit starts in the window and ends past
  \<open>maxLen\<close>, the breakpoint is moved to the unit's end.

  The code does not do this. In \<^verbatim>\<open>"ab&amp;cd"\<close> with \<open>maxLen = 4\<close> the entity
  \<^verbatim>\<open>&amp;\<close> starts at index 2, inside the window, and ends at index 7, yet
  \<open>nextSafeBreak\<close> answers 4 and the first chunk ends in \<^verbatim>\<open>&a\<close>. (By
  \<open>nextSafeBreak_in_window\<close> no breakpoint is ever past \<open>start + maxLen\<close>.)
\<close>

theorem C1_entity_is_cut:
  "re_exec False entityRe None (str ''ab&amp;cd'') =
     Some \<lparr>skipped = str ''ab'', matched = str ''&amp;'', groups = [],
           after_prev = Some 59, after = str ''cd''\<rparr>
   \<and> nextSafeBreak (str ''ab&amp;cd'') 0 4 = Some 4
   \<and> splitChunksSafe (str ''ab&amp;cd'') 4 = Some [str ''ab&a'', str ''mp;c'', str ''d'']"
  by code_simp

text \<open>
  C2. The claim: in plain mode a fenced block is restored exactly as it was written.

  The code restores the block \<^verbatim>\<open>```js\nx\n```\<close> as \<^verbatim>\<open>``` js\nx\n\n```\n\<close>: a space
  before the language tag, and a second newline after the body, which already ends
  with the newline that stood before the closing fence. And a fenced block on the line
  after a table's last row is not restored at all: its placeholder is a line without a
  pipe in the table's paragraph, and \<open>tableToBullets\<close> drops such lines.
\<close>

theorem C2_fence_not_restored_exactly:
  "extractFencedBlocks (str ''```js'' @ [NL] @ str ''x'' @ [NL] @ str ''```'') =
     Some (placeholder 0,
           [\<lparr>lang = str ''js'', body = str ''x'' @ [NL], fenceType = str ''```''\<rparr>])
   \<and> processed_text (str ''```js'' @ [NL] @ str ''x'' @ [NL] @ str ''```'') =
     Some (str ''``` js'' @ [NL] @ str ''x'' @ [NL, NL] @ str ''```'' @ [NL])
   \<and> processed_text
        (str ''| a | b |'' @ [NL] @ str ''|---|---|'' @ [NL] @ str ''| 1 | 2 |'' @ [NL] @
         str ''```'' @ [NL] @ str ''code'' @ [NL] @ str ''```'') =
     Some ([BULLET, SP] @ str ''a: 1'' @ [SP, MIDDOT, SP] @ str ''b: 2'')"
  by code_simp

text \<open>
  C7. The claim: for every \<^verbatim>\<open>text\<close> that is not a string, with any options, the result
  is one empty chunk and a null render mode, and no exception is raised.

  With \<^verbatim>\<open>null\<close> for the options an exception is raised: \<open>preprocess\<close> destructures
  its options before it tests \<^verbatim>\<open>typeof text\<close>, so \<^verbatim>\<open>preprocess(42, null)\<close> throws a
  \<^verbatim>\<open>TypeError\<close>.
\<close>

theorem C7_counterexample:
  "preprocess (JNumber 42) OptNull = Some (Inl TypeError)"
  by (simp add: preprocess_def)

text \<open>
  C7, amended. For every \<^verbatim>\<open>text\<close> that is not a string, and options that are absent
  (or \<^verbatim>\<open>undefined\<close>) or an object, \<open>preprocess\<close> returns, raises nothing, and its
  result is one empty chunk and a null render mode.
\<close>

theorem C7_non_string_input:
  "\<forall>t. text \<noteq> JString t \<Longrightarrow> arg \<noteq> OptNull \<Longrightarrow>
   preprocess text arg = Some (Inr \<lparr>chunks = [[]], parseMode = None\<rparr>)"
  by (cases "text"; cases arg) (auto simp: preprocess_def preprocess_with_def Let_def)

theorem C7_non_string_input_witness:
  "preprocess (JNumber 42)
     (OptObject \<lparr>opt_style = Some (str ''telegramHtml''), opt_toHtml = None,
                 opt_maxChunkLength = Some 10, opt_split = None\<rparr>)
   = Some (Inr \<lparr>chunks = [[]], parseMode = None\<rparr>)
   \<and> preprocess JNull OptUndefined = Some (Inr \<lparr>chunks = [[]], parseMode = None\<rparr>)"
  using C7_non_string_input[of "JNumber 42"
          "OptObject \<lparr>opt_style = Some (str ''telegramHtml''), opt_toHtml = None,
                      opt_maxChunkLength = Some 10, opt_split = None\<rparr>"]
        C7_non_string_input[of JNull OptUndefined]
  by simp





text \<open>
  C8. The claim: a \<^verbatim>\<open>parse_mode\<close> the caller supplied is always passed through.

  It is not when the supplied value is falsy: the wrapper tests
  \<^verbatim>\<open>!baseOptions.parse_mode\<close>, so an empty string (or \<^verbatim>\<open>null\<close>, \<^verbatim>\<open>undefined\<close>,
  \<^verbatim>\<open>0\<close>, \<^verbatim>\<open>false\<close>) is replaced by \<^verbatim>\<open>'HTML'\<close> in HTML style.
\<close>

theorem C8_counterexample:
  "sendMessage (default_proxy_options\<lparr>po_style := Some (str ''telegramHtml'')\<rparr>) mock_client 0
     (JNumber 7) (JString (str ''hi'')) [(''parse_mode'', JString [])] =
     Some \<lparr>returned = Inr [1], client_state = 1,
           sent = [\<lparr>call_chatId = JNumber 7, call_text = JString (str ''hi''),
                    call_options = [(''parse_mode'', JString (str ''HTML''))]\<rparr>]\<rparr>"
  by code_simp

text \<open>
  C8, amended. For every call of the wrapper's \<open>sendMessage\<close>, every underlying send
  carries the same options \<open>base\<close>. When the pipeline ran, its render mode is
  \<^verbatim>\<open>'HTML'\<close> and the caller's \<^verbatim>\<open>parse_mode\<close> is absent or falsy, \<open>base\<close> is the
  caller's options with \<^verbatim>\<open>parse_mode\<close> set to \<^verbatim>\<open>'HTML'\<close>. In every other case (a truthy
  \<^verbatim>\<open>parse_mode\<close>, a null render mode, a call that bypasses the pipeline) \<open>base\<close> is the
  caller's options themselves. In every case all other properties are as the caller
  gave them.

  The sends: a call that bypasses the pipeline makes one, with the original text; a
  call that runs it makes one per chunk, in order, up to the first that the client
  fails, and all of them when it returns the responses. A call that does not return
  makes no send, the pipeline running before the first; this happens only when the
  pipeline is asked to split at length 0.
\<close>

theorem C8_parse_mode:
  "(case sendMessage po send c chatId text opts of
      None \<Rightarrow>
        po_enabled po \<and> \<not> not_text text \<and> po_split po \<noteq> Some False \<and>
        max_chunk_length (pipeline_options po) = 0
    | Some out \<Rightarrow>
        if po_enabled po \<and> \<not> not_text text
        then (\<exists>r n base.
                preprocess text (OptObject (pipeline_options po)) = Some (Inr r) \<and>
                base = (if parseMode r = Some (str ''HTML'') \<and>
                           \<not> truthy (get_prop opts ''parse_mode'')
                        then set_prop ''parse_mode'' (JString (str ''HTML'')) opts else opts) \<and>
                n \<le> length (chunks r) \<and>
                sent out = map (\<lambda>ch. \<lparr>call_chatId = chatId, call_text = JString ch,
                                        call_options = base\<rparr>) (take n (chunks r)) \<and>
                ((\<exists>rs. returned out = Inr rs) \<longrightarrow> n = length (chunks r)) \<and>
                get_prop (set_prop ''parse_mode'' (JString (str ''HTML'')) opts) ''parse_mode'' =
                  JString (str ''HTML'') \<and>
                (\<forall>k. k \<noteq> ''parse_mode'' \<longrightarrow> map_of base k = map_of opts k))
        else sent out = [\<lparr>call_chatId = chatId, call_text = text, call_options = opts\<rparr>])"
proof (cases "po_enabled po \<and> \<not> not_text text")
  case False
  obtain res c' where s: "send c \<lparr>call_chatId = chatId, call_text = text, call_options = opts\<rparr> = (res, c')"
    by (cases "send c \<lparr>call_chatId = chatId, call_text = text, call_options = opts\<rparr>")
  from False s show ?thesis
    by (cases res) (auto simp: sendMessage_def)
next
  case True
  then obtain t where t: "text = JString t" using not_text_string[of "text"] by blast
  show ?thesis
  proof (cases "preprocess_with text (pipeline_options po)")
    case None
    then have "\<not> (opt_split (pipeline_options po) = Some False \<or>
                  1 \<le> max_chunk_length (pipeline_options po))"
      using preprocess_with_total[of "pipeline_options po" "text"] by auto
    then have "po_split po \<noteq> Some False \<and> max_chunk_length (pipeline_options po) = 0"
      by (simp add: pipeline_options_def)
    with True None show ?thesis by (simp add: sendMessage_def)
  next
    case (Some r)
    define base where "base =
       (case parseMode r of
          Some mode \<Rightarrow> if \<not> truthy (get_prop opts ''parse_mode'')
                       then set_prop ''parse_mode'' (JString mode) opts else opts
        | None \<Rightarrow> opts)"
    have sm: "sendMessage po send c chatId text opts =
                Some (send_chunks send c chatId (chunks r) base [] [])"
      using True Some by (simp add: sendMessage_def base_def)
    obtain n where n: "n \<le> length (chunks r)"
      "sent (send_chunks send c chatId (chunks r) base [] []) =
         map (\<lambda>ch. \<lparr>call_chatId = chatId, call_text = JString ch, call_options = base\<rparr>)
           (take n (chunks r))"
      "(\<exists>rs. returned (send_chunks send c chatId (chunks r) base [] []) = Inr rs) \<longrightarrow>
         n = length (chunks r)"
      using send_chunks_sent[of "chunks r" send c chatId base "[]" "[]"] by auto
    from preprocess_with_parseMode[OF Some[unfolded t]]
    have pm: "parseMode r = None \<or> parseMode r = Some (str ''HTML'')" by (auto split: if_splits)
    have b1: "base = (if parseMode r = Some (str ''HTML'') \<and> \<not> truthy (get_prop opts ''parse_mode'')
                     then set_prop ''parse_mode'' (JString (str ''HTML'')) opts else opts)"
      using pm by (auto simp: base_def)
    have b2: "get_prop (set_prop ''parse_mode'' (JString (str ''HTML'')) opts) ''parse_mode'' =
               JString (str ''HTML'')"
      by (rule get_prop_set_prop_same)
    have b3: "\<forall>k. k \<noteq> ''parse_mode'' \<longrightarrow> map_of base k = map_of opts k"
      by (simp add: base_def map_of_set_prop split: option.splits)
    have r: "preprocess text (OptObject (pipeline_options po)) = Some (Inr r)"
      using Some by (simp add: preprocess_object)
    have "\<exists>r n base.
            preprocess text (OptObject (pipeline_options po)) = Some (Inr r) \<and>
            base = (if parseMode r = Some (str ''HTML'') \<and>
                       \<not> truthy (get_prop opts ''parse_mode'')
                    then set_prop ''parse_mode'' (JString (str ''HTML'')) opts else opts) \<and>
            n \<le> length (chunks r) \<and>
            sent (send_chunks send c chatId (chunks r) base [] []) =
              map (\<lambda>ch. \<lparr>call_chatId = chatId, call_text = JString ch,
                         call_options = base\<rparr>) (take n (chunks r)) \<and>
            ((\<exists>rs. returned (send_chunks send c chatId (chunks r) base [] []) = Inr rs) \<longrightarrow>
               n = length (chunks r)) \<and>
            get_prop (set_prop ''parse_mode'' (JString (str ''HTML'')) opts) ''parse_mode'' =
              JString (str ''HTML'') \<and>
            (\<forall>k. k \<noteq> ''parse_mode'' \<longrightarrow> map_of base k = map_of opts k)"
      using r b1 n b2 b3 by blast
    then show ?thesis
      using True sm r b1 by (auto simp del: not_text.simps)
  qed
qed

theorem C8_parse_mode_witness:
  "\<exists>out r n.
     sendMessage (default_proxy_options\<lparr>po_style := Some (str ''telegramHtml'')\<rparr>)
       mock_client 0 (JNumber 7) (JString (str ''hi'')) [(''reply_markup'', JObject 1)] = Some out \<and>
     preprocess (JString (str ''hi''))
       (OptObject (pipeline_options
          (default_proxy_options\<lparr>po_style := Some (str ''telegramHtml'')\<rparr>))) = Some (Inr r) \<and>
     n \<le> length (chunks r) \<and>
     sent out =
       map (\<lambda>ch. \<lparr>call_chatId = JNumber 7, call_text = JString ch,
                  call_options = [(''reply_markup'', JObject 1),
                                  (''parse_mode'', JString (str ''HTML''))]\<rparr>)
         (take n (chunks r))"
proof -
  let ?po = "default_proxy_options\<lparr>po_style := Some (str ''telegramHtml'')\<rparr>"
  have e: "po_enabled ?po \<and> \<not> not_text (JString (str ''hi''))"
    by code_simp
  have "sendMessage ?po mock_client 0 (JNumber 7) (JString (str ''hi''))
          [(''reply_markup'', JObject 1)] \<noteq> None"
    by code_simp
  then obtain out where s: "sendMessage ?po mock_client 0 (JNumber 7) (JString (str ''hi''))
          [(''reply_markup'', JObject 1)] = Some out"
    by blast
  have p: "\<And>r. preprocess (JString (str ''hi'')) (OptObject (pipeline_options ?po)) = Some (Inr r) \<Longrightarrow>
             parseMode r = Some (str ''HTML'')"
    by (auto simp: preprocess_object default_proxy_options_def pipeline_options_def
                   html_style_def style_of_def dest!: preprocess_with_parseMode)
  have g: "\<not> truthy (get_prop [(''reply_markup'', JObject 1)] ''parse_mode'')"
    by (simp add: get_prop_def)
  show ?thesis
    using C8_parse_mode[of ?po "JString (str ''hi'')" "[(''reply_markup'', JObject 1)]"
                           "JNumber 7" mock_client 0] e s p g
    by (fastforce simp del: not_text.simps)
qed

text \<open>
  C9. When \<^verbatim>\<open>text\<close> is not a string, or trims to the empty string, the wrapper makes
  exactly one underlying call, with the original text and the caller's options, and
  returns the one-element list of its response (or the client's failure), whether
  preprocessing is enabled or not.
\<close>

theorem C9_bypass:
  "not_text text \<Longrightarrow>
   sendMessage po send c chatId text opts =
     Some \<lparr>returned = map_sum id (\<lambda>res. [res])
                        (fst (send c \<lparr>call_chatId = chatId, call_text = text, call_options = opts\<rparr>)),
           client_state = snd (send c \<lparr>call_chatId = chatId, call_text = text, call_options = opts\<rparr>),
           sent = [\<lparr>call_chatId = chatId, call_text = text, call_options = opts\<rparr>]\<rparr>"
  by (cases "send c \<lparr>call_chatId = chatId, call_text = text, call_options = opts\<rparr>";
      cases "fst (send c \<lparr>call_chatId = chatId, call_text = text, call_options = opts\<rparr>)")
     (auto simp: sendMessage_def)

theorem C9_bypass_witness:
  "sendMessage default_proxy_options mock_client 0 (JNumber 7) (JString (str ''  '' @ [NL]))
     [(''reply_markup'', JObject 1)] =
     Some \<lparr>returned = Inr [1], client_state = 1,
           sent = [\<lparr>call_chatId = JNumber 7, call_text = JString (str ''  '' @ [NL]),
                    call_options = [(''reply_markup'', JObject 1)]\<rparr>]\<rparr>"
proof -
  have "not_text (JString (str ''  '' @ [NL]))" by code_simp
  from C9_bypass[OF this, of default_proxy_options mock_client 0 "JNumber 7" "[(''reply_markup'', JObject 1)]"]
  show ?thesis by (simp add: mock_client_def)
qed


text \<open>
  C3. The claim: for every text and \<open>maxLen\<close> the chunks are non-empty and trimmed.

  A text no longer than \<open>maxLen\<close> is returned as it is, as the only chunk: the empty
  text gives one empty chunk, and \<^verbatim>\<open>" a "\<close> gives an untrimmed one. And with
  \<open>maxLen = 0\<close> the splitting of \<^verbatim>\<open>"a"\<close> does not return.
\<close>

theorem C3_counterexample:
  "splitChunksSafe [] 5 = Some [[]] \<and>
   splitChunksSafe (str '' a '') 5 = Some [str '' a ''] \<and> trim (str '' a '') = str ''a'' \<and>
   splitChunksSafe (str ''a'') 0 = None"
proof -
  have "splitChunksSafe [] 5 = Some [[]] \<and>
        splitChunksSafe (str '' a '') 5 = Some [str '' a ''] \<and> trim (str '' a '') = str ''a''"
    by code_simp
  then show ?thesis using splitChunksSafe_zero by simp
qed

text \<open>
  C3, amended. For \<open>maxLen \<ge> 1\<close>: a text no longer than \<open>maxLen\<close> is the single chunk,
  unchanged. A longer text gives chunks that are all non-empty and trimmed, and the
  text is these chunks in order with only whitespace around them; so the chunks and
  the text agree once whitespace is removed.
\<close>

theorem C3_chunks:
  assumes "1 \<le> maxLen"
  shows "(length text \<le> maxLen \<longrightarrow> splitChunksSafe text maxLen = Some [text]) \<and>
         (maxLen < length text \<longrightarrow>
            (\<exists>cs. splitChunksSafe text maxLen = Some cs \<and>
                  (\<forall>c \<in> set cs. c \<noteq> [] \<and> trim c = c) \<and>
                  covers cs text \<and>
                  concat (map (filter (\<lambda>ch. \<not> isSpace ch)) cs) = filter (\<lambda>ch. \<not> isSpace ch) text))"
proof (intro conjI impI)
  assume "length text \<le> maxLen"
  then show "splitChunksSafe text maxLen = Some [text]" by (simp add: splitChunksSafe_def)
next
  assume long: "maxLen < length text"
  obtain new where new: "split_loop text maxLen 0 [] = Some new"
    "\<forall>c \<in> set new. trim c = c" "covers (filter (\<lambda>c. c \<noteq> []) new) text"
    using split_loop_covers[OF assms, of "text" 0 "[]"] by auto
  let ?cs = "filter (\<lambda>c. c \<noteq> []) new"
  have "splitChunksSafe text maxLen = Some ?cs"
    using long new(1) by (simp add: splitChunksSafe_def)
  moreover have "\<forall>c \<in> set ?cs. c \<noteq> [] \<and> trim c = c" using new(2) by simp
  ultimately show "\<exists>cs. splitChunksSafe text maxLen = Some cs \<and>
                  (\<forall>c \<in> set cs. c \<noteq> [] \<and> trim c = c) \<and>
                  covers cs text \<and>
                  concat (map (filter (\<lambda>ch. \<not> isSpace ch)) cs) = filter (\<lambda>ch. \<not> isSpace ch) text"
    using new(3) covers_strip[OF new(3)] by blast
qed

theorem C3_chunks_witness:
  "\<exists>cs. splitChunksSafe (str ''ab  cd'' @ [NL, NL] @ str ''ef gh'') 4 = Some cs \<and>
         (\<forall>c \<in> set cs. c \<noteq> [] \<and> trim c = c) \<and>
         covers cs (str ''ab  cd'' @ [NL, NL] @ str ''ef gh'') \<and>
         concat (map (filter (\<lambda>ch. \<not> isSpace ch)) cs) =
           filter (\<lambda>ch. \<not> isSpace ch) (str ''ab  cd'' @ [NL, NL] @ str ''ef gh'')"
proof -
  have h: "1 \<le> (4::nat)" by simp
  have l: "4 < length (str ''ab  cd'' @ [NL, NL] @ str ''ef gh'')" by (simp add: str_def)
  from C3_chunks[OF h, of "str ''ab  cd'' @ [NL, NL] @ str ''ef gh''"] l show ?thesis by blast
qed

text \<open>
  C10. For \<open>maxLen \<ge> 1\<close> the loop of \<open>splitChunksSafe\<close> ends: while \<open>start\<close> is inside
  the text, \<open>nextSafeBreak\<close> returns a breakpoint strictly greater than \<open>start\<close>, the
  next \<open>start\<close> is at or after the breakpoint, and the loop, from any \<open>start\<close>,
  returns its chunks.
\<close>

theorem C10_terminates:
  assumes "1 \<le> maxLen"
  shows "(start < length text \<longrightarrow>
            (\<exists>b. nextSafeBreak text start maxLen = Some b \<and> start < b \<and>
                 b \<le> skip_blank text b)) \<and>
         (\<exists>cs. split_loop text maxLen start acc = Some cs) \<and>
         (\<exists>cs. splitChunksSafe text maxLen = Some cs)"
proof (intro conjI impI)
  assume "start < length text"
  then show "\<exists>b. nextSafeBreak text start maxLen = Some b \<and> start < b \<and> b \<le> skip_blank text b"
    using nextSafeBreak_progress assms skip_blank_ge by blast
next
  show "\<exists>cs. split_loop text maxLen start acc = Some cs"
    using split_loop_covers[OF assms, of "text" start acc] by blast
next
  show "\<exists>cs. splitChunksSafe text maxLen = Some cs"
    using split_loop_covers[OF assms, of "text" 0 "[]"] by (auto simp: splitChunksSafe_def)
qed

theorem C10_terminates_witness:
  "(\<exists>b. nextSafeBreak (str ''ab&amp;cd'') 4 4 = Some b \<and> 4 < b \<and>
        b \<le> skip_blank (str ''ab&amp;cd'') b) \<and>
   (\<exists>cs. split_loop (str ''ab&amp;cd'') 4 4 [str ''ab&a''] = Some cs) \<and>
   (\<exists>cs. splitChunksSafe (str ''ab&amp;cd'') 4 = Some cs)"
proof -
  have h: "1 \<le> (4::nat)" by simp
  have l: "4 < length (str ''ab&amp;cd'')" by (simp add: str_def)
  from C10_terminates[OF h, of 4 "str ''ab&amp;cd''" "[str ''ab&a'']"] l show ?thesis by blast
qed


text \<open>
  C5. The claim: the normalizer unifies line endings, collapses 3 or more consecutive
  blank lines to one blank line, right-trims every line and trims the text, in this
  order.

  The code collapses from 3 consecutive newlines on, that is from 2 blank lines on:
  \<^verbatim>\<open>"a\n\n\nb"\<close>, with two blank lines, becomes \<^verbatim>\<open>"a\n\nb"\<close>, where the steps as
  claimed leave it alone.
\<close>

theorem C5_counterexample:
  "normalizeWhitespace (str ''a'' @ [NL, NL, NL] @ str ''b'') = str ''a'' @ [NL, NL] @ str ''b''
   \<and> normalize_steps 4 (str ''a'' @ [NL, NL, NL] @ str ''b'') = str ''a'' @ [NL, NL, NL] @ str ''b''"
  by code_simp

text \<open>
  C5, amended. The normalizer is these four steps, in this order: every CR LF and
  every other CR becomes LF; every run of 3 or more newlines (2 or more blank lines)
  becomes two newlines (one blank line); every line is right-trimmed; the text is
  trimmed.
\<close>

theorem C5_normalize: "normalizeWhitespace text = normalize_steps 3 text"
  by (simp add: normalizeWhitespace_def normalize_steps_def re_replace_all_def
      replace_crlf replace_cr replace_collapse unify_line_endings_eq)


text \<open>
  C4. The claim: a paragraph that is not a table is returned unchanged.

  It is returned trimmed: \<^verbatim>\<open>"  b"\<close> comes back as \<^verbatim>\<open>"b"\<close>. Such a paragraph
  reaches \<open>processBlock\<close>: it is the second paragraph of \<^verbatim>\<open>"a\n\n  b"\<close>.
\<close>

theorem C4_counterexample:
  "processBlock (str ''  b'') = str ''b'' \<and>
   re_split False paragraph_re (normalizeWhitespace (str ''a'' @ [NL, NL] @ str ''  b'')) =
     [str ''a'', str ''  b''] \<and>
   processed_text (str ''a'' @ [NL, NL] @ str ''  b'') = Some (str ''a'' @ [NL, NL] @ str ''b'')"
  by code_simp

text \<open>
  C4, amended. \<open>processBlock\<close> trims the paragraph. Unless the trimmed paragraph has at
  least 3 lines, a pipe in its first line, a line at index 1 that matches the separator
  pattern, and a pipe in some later line, the trimmed paragraph is the result. When it
  has, the result contains no \<^verbatim>\<open>|\<close>, and it has exactly one line for each later line
  that contains a pipe, each starting with the bullet.
\<close>

theorem C4_table_rewriter:
  "(\<not> is_table (trim par) \<longrightarrow> processBlock par = trim par) \<and>
   (is_table (trim par) \<longrightarrow>
      \<not> includes_str (processBlock par) [PIPE] \<and>
      (let rows = split_str (processBlock par) [NL]
       in length rows =
            length (filter (\<lambda>l. includes_str l [PIPE]) (drop 2 (split_str (trim par) [NL]))) \<and>
          list_all (\<lambda>row. startsWith row [BULLET, SP]) rows))"
proof (intro conjI impI)
  assume "\<not> is_table (trim par)"
  then show "processBlock par = trim par" by (simp add: processBlock_cases)
next
  assume tab: "is_table (trim par)"
  let ?lines = "split_str (trim par) [NL]"
  let ?hs = "parseRow (trim (?lines ! 0))"
  let ?dl = "map trim (filter (\<lambda>l. includes_str l [PIPE]) (drop 2 ?lines))"
  let ?rows = "map (bullet_row ?hs) ?dl"
  have out: "processBlock par = join ?rows [NL]"
    using tab by (simp add: processBlock_cases tableToBullets_table)
  from tab have len: "3 \<le> length ?lines"
    and data: "filter (\<lambda>l. includes_str l [PIPE]) (drop 2 ?lines) \<noteq> []"
    by (simp_all add: is_table_def Let_def list_ex_filter)
  have line_nl: "NL \<notin> set l" if "l \<in> set ?lines" for l
    using that split_str_no_sep by blast
  have "?lines ! 0 \<in> set ?lines" using len by (intro nth_mem) auto
  then have first_nl: "NL \<notin> set (trim (?lines ! 0))"
    using line_nl set_trim by blast
  have hs_pipe: "PIPE \<notin> set h" and hs_nl: "NL \<notin> set h" if "h \<in> set ?hs" for h
    using parseRow_chars[OF that] first_nl by auto
  have dl_nl: "NL \<notin> set l" if "l \<in> set ?dl" for l
  proof -
    from that obtain l' where "l = trim l'" "l' \<in> set (drop 2 ?lines)" by auto
    then show ?thesis using line_nl[of l'] set_trim[of l'] by (auto dest: in_set_dropD)
  qed
  have row_pipe: "PIPE \<notin> set r" and row_nl: "NL \<notin> set r" if "r \<in> set ?rows" for r
  proof -
    from that obtain l where l: "l \<in> set ?dl" "r = bullet_row ?hs l" by auto
    from bullet_row_chars[of ?hs l] l(2) hs_pipe special_chars(1)
    show "PIPE \<notin> set r" by auto
    from bullet_row_chars[of ?hs l] l(2) hs_nl dl_nl[OF l(1)] special_chars(2)
    show "NL \<notin> set r" by auto
  qed
  have ne: "?rows \<noteq> []" using data by simp
  have "PIPE \<notin> set (join ?rows [NL])"
    using set_join[of ?rows "[NL]"] row_pipe special_chars(3) by auto
  then show "\<not> includes_str (processBlock par) [PIPE]"
    by (simp add: out includes_str_char)
  have sp: "split_str (join ?rows [NL]) [NL] = ?rows"
    using ne row_nl by (intro split_join) auto
  show "let rows = split_str (processBlock par) [NL]
       in length rows =
            length (filter (\<lambda>l. includes_str l [PIPE]) (drop 2 (split_str (trim par) [NL]))) \<and>
          list_all (\<lambda>row. startsWith row [BULLET, SP]) rows"
    unfolding out sp Let_def by (simp add: list_all_iff bullet_row_start)
qed

theorem C4_table_rewriter_witness:
  "\<not> includes_str (processBlock (str ''| A | B |'' @ [NL] @ str ''|---|---|'' @ [NL] @ str ''| 1 |  |'' @ [NL] @ str ''note'' @ [NL] @ str ''| 3 | 4 |'')) [PIPE] \<and>
      (let rows = split_str (processBlock (str ''| A | B |'' @ [NL] @ str ''|---|---|'' @ [NL] @ str ''| 1 |  |'' @ [NL] @ str ''note'' @ [NL] @ str ''| 3 | 4 |'')) [NL]
       in length rows =
            length (filter (\<lambda>l. includes_str l [PIPE]) (drop 2 (split_str (trim (str ''| A | B |'' @ [NL] @ str ''|---|---|'' @ [NL] @ str ''| 1 |  |'' @ [NL] @ str ''note'' @ [NL] @ str ''| 3 | 4 |'')) [NL]))) \<and>
          list_all (\<lambda>row. startsWith row [BULLET, SP]) rows)"
proof -
  have "is_table (trim (str ''| A | B |'' @ [NL] @ str ''|---|---|'' @ [NL] @ str ''| 1 |  |'' @ [NL] @ str ''note'' @ [NL] @ str ''| 3 | 4 |''))"
    by code_simp
  with C4_table_rewriter[of "str ''| A | B |'' @ [NL] @ str ''|---|---|'' @ [NL] @ str ''| 1 |  |'' @ [NL] @ str ''note'' @ [NL] @ str ''| 3 | 4 |''"]
  show ?thesis by blast
qed

end
